theory Spec2Isabelle
  imports Complex_Main "HOL-Library.Sublist"
begin

section \<open>Text primitives of the host language\<close>

text \<open>
  The two scripts (\<^verbatim>\<open>automation.py\<close>, \<^verbatim>\<open>rename.py\<close>) work on Python \<^verbatim>\<open>str\<close> values.
  A \<^verbatim>\<open>str\<close> is modelled as a \<^typ>\<open>string\<close> whose characters are code points below 256;
  the character classes below are the ones Python 3 uses on that range
  (\<^verbatim>\<open>str.isspace\<close> and the regular-expression class \<^verbatim>\<open>\s\<close> agree there, as do
  \<^verbatim>\<open>str.isalpha\<close>, \<^verbatim>\<open>\w\<close>, \<^verbatim>\<open>\d\<close> and \<^verbatim>\<open>str.lower\<close> with the tables written out here).
\<close>

definition is_space :: "char \<Rightarrow> bool" where
  "is_space c = (let n = (of_char c :: nat) in
     (9 \<le> n \<and> n \<le> 13) \<or> (28 \<le> n \<and> n \<le> 32) \<or> n = 133 \<or> n = 160)"

definition is_az :: "char \<Rightarrow> bool" where
  "is_az c = (let n = (of_char c :: nat) in 97 \<le> n \<and> n \<le> 122)"

definition is_AZ :: "char \<Rightarrow> bool" where
  "is_AZ c = (let n = (of_char c :: nat) in 65 \<le> n \<and> n \<le> 90)"

definition is_digit :: "char \<Rightarrow> bool" where
  "is_digit c = (let n = (of_char c :: nat) in 48 \<le> n \<and> n \<le> 57)"

definition is_alpha :: "char \<Rightarrow> bool" where
  "is_alpha c = (let n = (of_char c :: nat) in
     is_AZ c \<or> is_az c \<or> n = 170 \<or> n = 181 \<or> n = 186 \<or>
     (192 \<le> n \<and> n \<le> 214) \<or> (216 \<le> n \<and> n \<le> 246) \<or> 248 \<le> n)"

definition is_word :: "char \<Rightarrow> bool" where
  "is_word c = (let n = (of_char c :: nat) in
     is_alpha c \<or> is_digit c \<or> n = 95 \<or> n = 178 \<or> n = 179 \<or> n = 185 \<or>
     (188 \<le> n \<and> n \<le> 190))"

definition lower_char :: "char \<Rightarrow> char" where
  "lower_char c = (let n = (of_char c :: nat) in
     if is_AZ c \<or> (192 \<le> n \<and> n \<le> 222 \<and> n \<noteq> 215) then char_of (n + 32) else c)"

definition py_lower :: "string \<Rightarrow> string" where
  "py_lower s = map lower_char s"

definition py_strip :: "string \<Rightarrow> string" where
  "py_strip s = rev (dropWhile is_space (rev (dropWhile is_space s)))"

text \<open>\<^verbatim>\<open>s.split()\<close>: the maximal runs of non-blank characters, in order.\<close>

function py_split :: "string \<Rightarrow> string list" where
  "py_split s = (case dropWhile is_space s of
      [] \<Rightarrow> []
    | c # cs \<Rightarrow> takeWhile (\<lambda>x. \<not> is_space x) (c # cs)
               # py_split (dropWhile (\<lambda>x. \<not> is_space x) (c # cs)))"
  by pat_completeness auto
termination
proof (relation "measure length")
  show "wf (measure length)" by simp
next
  fix s :: string and c cs
  assume a: "dropWhile is_space s = c # cs"
  have "\<not> is_space c" using hd_dropWhile[of is_space s] a by simp
  then have "length (dropWhile (\<lambda>x. \<not> is_space x) (c # cs)) \<le> length cs"
    by (simp add: length_dropWhile_le)
  moreover have "length (c # cs) \<le> length s"
    using length_dropWhile_le[of is_space s] a by simp
  ultimately show "(dropWhile (\<lambda>x. \<not> is_space x) (c # cs), s) \<in> measure length"
    by simp
qed

declare py_split.simps [simp del]

text \<open>\<^verbatim>\<open>w.isalpha()\<close> is false on the empty string.\<close>

definition str_isalpha :: "string \<Rightarrow> bool" where
  "str_isalpha w = (w \<noteq> [] \<and> list_all is_alpha w)"

text \<open>\<^verbatim>\<open>kw in s\<close> on strings: \<open>kw\<close> occurs in \<open>s\<close> as a contiguous block.\<close>

fun contains :: "string \<Rightarrow> string \<Rightarrow> bool" where
  "contains kw [] = (kw = [])"
| "contains kw (c # cs) = (prefix kw (c # cs) \<or> contains kw cs)"

section \<open>rename.py: the skip-line predicate\<close>

definition skip_keywords :: "string list" where
  "skip_keywords =
    [''certificate'', ''certifies'', ''congratulations'', ''participant'',
     ''diploma'', ''completion'', ''attendance'', ''workshop'', ''seminar'',
     ''course'', ''training'', ''program'', ''event'', ''this'', ''is awarded to'',
     ''hackathon'', ''team darion'', ''darion'', ''date'', ''signed'', ''winner'',
     ''certificate of'', ''issued to'', ''presented to'', ''name'', ''student'',
     ''the'', ''and'', ''for'', ''this is to'', ''we present'', ''in recognition of'',
     ''please find'', ''below'', ''attached'', ''email'', ''gmail'', ''outlook'']"

definition admin_words :: "string list" where
  "admin_words =
    [''certificate'', ''this'', ''issued'', ''presented'', ''participant'', ''congratulations'']"

definition should_skip_line :: "string \<Rightarrow> bool" where
  "should_skip_line line =
    (let line_lower = py_strip (py_lower line);
         words = py_split line
     in if (case words of
              first # _ # _ \<Rightarrow>
                list_all str_isalpha words \<and> py_lower first \<notin> set admin_words
            | _ \<Rightarrow> False)
        then False
        else list_ex (\<lambda>kw. contains kw line_lower) skip_keywords)"

section \<open>automation.py: regular-expression substitution\<close>

text \<open>
  \<^verbatim>\<open>re.sub(pattern, repl, s)\<close> scans \<open>s\<close> from the left; where the pattern matches it
  emits \<open>repl\<close> and resumes after the match, elsewhere it copies one character.
  A pattern is given by its matcher: from whether the character before the position is
  a word character (what \<^verbatim>\<open>\b\<close> looks at) and the rest of the subject, the length of
  the match at that position. No pattern of the program matches the empty string, so
  a match has at least one character.
\<close>

fun re_sub :: "(bool \<Rightarrow> string \<Rightarrow> nat option) \<Rightarrow> string \<Rightarrow> bool \<Rightarrow> string \<Rightarrow> string" where
  "re_sub m repl pw [] = []"
| "re_sub m repl pw (c # cs) =
     (case m pw (c # cs) of
        Some (Suc n) \<Rightarrow> repl @ re_sub m repl (is_word ((c # cs) ! n)) (drop n cs)
      | _ \<Rightarrow> c # re_sub m repl (is_word c) cs)"

declare re_sub.simps(2) [simp del]

text \<open>A literal pattern, such as \<^verbatim>\<open>gmsil\.com\<close> or \<^verbatim>\<open>@gmail,com\<close>.\<close>

definition lit_match :: "string \<Rightarrow> bool \<Rightarrow> string \<Rightarrow> nat option" where
  "lit_match p pw s = (if prefix p s then Some (length p) else None)"

text \<open>\<^verbatim>\<open>pre\s+post\<close>: the blanks are taken greedily; \<open>post\<close> starts with a non-blank.\<close>

definition ws_match :: "string \<Rightarrow> string \<Rightarrow> bool \<Rightarrow> string \<Rightarrow> nat option" where
  "ws_match pre post pw s =
     (if prefix pre s
      then (let r = drop (length pre) s;
                w = takeWhile is_space r
            in if w \<noteq> [] \<and> prefix post (dropWhile is_space r)
               then Some (length pre + length w + length post) else None)
      else None)"

text \<open>\<^verbatim>\<open>\s+\<close>: a maximal run of blanks.\<close>

definition ws_run :: "bool \<Rightarrow> string \<Rightarrow> nat option" where
  "ws_run pw s = (case takeWhile is_space s of [] \<Rightarrow> None | w # ws \<Rightarrow> Some (length (w # ws)))"

section \<open>automation.py: normalize\_name\<close>

definition titles :: "string list" where
  "titles = [''mr'', ''mrs'', ''ms'', ''miss'', ''dr'', ''prof'', ''sir'', ''dame'', ''jr'',
             ''sr'', ''ii'', ''iii'', ''iv'', ''v'', ''phd'', ''md'', ''dds'', ''dvm'']"

text \<open>
  The pattern \<^verbatim>\<open>\b(mr|mrs|...|dvm)\b\.?\s*\<close>. Every alternative starts and ends with a
  letter, so the first \<^verbatim>\<open>\b\<close> holds when the character before is no word character, and
  the second when the alternative is followed by no word character. The alternatives are
  tried in their order; \<^verbatim>\<open>\.?\<close> and \<^verbatim>\<open>\s*\<close> are greedy and cannot fail.
\<close>

definition title_match :: "bool \<Rightarrow> string \<Rightarrow> nat option" where
  "title_match pw s =
     (if pw then None
      else case find (\<lambda>t. prefix t s \<and>
                         (case drop (length t) s of [] \<Rightarrow> True | c # _ \<Rightarrow> \<not> is_word c)) titles of
             None \<Rightarrow> None
           | Some t \<Rightarrow>
               (let r = drop (length t) s;
                    dot = (case r of [] \<Rightarrow> 0 | c # _ \<Rightarrow> if c = CHR ''.'' then 1 else 0)
                in Some (length t + dot + length (takeWhile is_space (drop dot r)))))"

text \<open>
  \<^verbatim>\<open>normalize_name\<close> is only called on \<^verbatim>\<open>str\<close> values, for which \<^verbatim>\<open>pd.isna\<close> is false.
  The transliteration \<^verbatim>\<open>unidecode\<close> comes from a package outside the repository; it is the
  parameter \<open>unidecode\<close> here.
\<close>

definition normalize_name :: "(string \<Rightarrow> string) \<Rightarrow> string \<Rightarrow> string" where
  "normalize_name unidecode name =
     (let name = py_strip name;
          name = py_lower (unidecode name);
          name = re_sub title_match [] False name;
          name = filter (\<lambda>c. is_az c \<or> is_space c) name;
          name = py_strip (re_sub ws_run '' '' False name)
      in name)"

text \<open>
  On text that is already ASCII, \<^verbatim>\<open>unidecode\<close> returns its argument. The concrete runs
  below are all on such text, and \<open>unidecode_ascii\<close> stands for the transliteration
  there only: it does not hold the package's table, so on a code point above 127, which
  the package transliterates, it says nothing about the program. The general statements
  take the transliteration as a parameter.
\<close>

definition unidecode_ascii :: "string \<Rightarrow> string" where
  "unidecode_ascii s = filter (\<lambda>c. (of_char c :: nat) < 128) s"

section \<open>automation.py: e-mail validation and repair\<close>

datatype cell = NaN | Text string

text \<open>
  A spreadsheet cell is either missing (pandas' \<^verbatim>\<open>NaN\<close>, for which \<^verbatim>\<open>pd.isna\<close> holds) or
  holds a value, kept as the text \<^verbatim>\<open>str\<close> gives for it.
\<close>

fun str_cell :: "cell \<Rightarrow> string" where
  "str_cell NaN = ''nan''"
| "str_cell (Text s) = s"

definition is_local_char :: "char \<Rightarrow> bool" where
  "is_local_char c = (is_az c \<or> is_AZ c \<or> is_digit c \<or> c \<in> set ''._%+-'')"

definition is_domain_char :: "char \<Rightarrow> bool" where
  "is_domain_char c = (is_az c \<or> is_AZ c \<or> is_digit c \<or> c \<in> set ''.-'')"

text \<open>
  \<^verbatim>\<open>re.match\<close> of \<^verbatim>\<open>^[a-zA-Z0-9._%+-]+@[a-zA-Z0-9.-]+\.[a-zA-Z]{2,}$\<close>. The local class
  excludes \<^verbatim>\<open>@\<close>, so the local part is the longest prefix in the class; the last group
  holds letters only and follows a dot, so it is the longest run of letters at the end.
  The subject is stripped, so \<^verbatim>\<open>$\<close> is the end of the string.
\<close>

definition email_pattern :: "string \<Rightarrow> bool" where
  "email_pattern s =
     (takeWhile is_local_char s \<noteq> [] \<and>
      (case dropWhile is_local_char s of
         [] \<Rightarrow> False
       | c # r \<Rightarrow> c = CHR ''@'' \<and>
           (let tld = takeWhile (\<lambda>x. is_az x \<or> is_AZ x) (rev r) in
              2 \<le> length tld \<and>
              (case dropWhile (\<lambda>x. is_az x \<or> is_AZ x) (rev r) of
                 [] \<Rightarrow> False
               | d # host \<Rightarrow> d = CHR ''.'' \<and> host \<noteq> [] \<and> list_all is_domain_char host))))"

definition is_valid_email :: "cell \<Rightarrow> bool" where
  "is_valid_email email =
     (case email of NaN \<Rightarrow> False
      | Text s \<Rightarrow> email_pattern (py_lower (py_strip s)))"

definition corrections :: "((bool \<Rightarrow> string \<Rightarrow> nat option) \<times> string) list" where
  "corrections =
    [(lit_match ''gmsil.com'', ''gmail.com''),
     (lit_match ''gnail.com'', ''gmail.com''),
     (lit_match ''@gmail,com'', ''@gmail.com''),
     (lit_match ''@yahoo,com'', ''@yahoo.com''),
     (lit_match ''@outlook,com'', ''@outlook.com''),
     (ws_match ''yahoo'' ''com'', ''yahoo.com''),
     (ws_match ''hotmail'' ''com'', ''hotmail.com''),
     (ws_match ''outlook'' ''com'', ''outlook.com'')]"

definition clean_email :: "cell \<Rightarrow> string" where
  "clean_email email =
     (case email of NaN \<Rightarrow> []
      | Text s \<Rightarrow>
          (let email = py_lower (py_strip s);
               email = filter (\<lambda>c. \<not> is_space c) email;
               email = fold (\<lambda>(pattern, repl) e. re_sub pattern repl False e) corrections email
           in if is_valid_email (Text email) then email else []))"

section \<open>automation.py: build\_cert\_map\<close>

text \<open>
  \<^verbatim>\<open>os.path.splitext(p)[0]\<close>: the name is cut at its last dot, unless nothing but dots
  stands between the last separator and that dot. A directory entry holds no separator.
\<close>

definition splitext_root :: "string \<Rightarrow> string" where
  "splitext_root p =
     (let name = rev (takeWhile (\<lambda>c. c \<noteq> CHR ''/'') (rev p));
          ext = takeWhile (\<lambda>c. c \<noteq> CHR ''.'') (rev name)
      in if CHR ''.'' \<in> set name
            \<and> \<not> list_all (\<lambda>c. c = CHR ''.'') (take (length name - length ext - 1) name)
         then take (length p - length ext - 1) p
         else p)"

text \<open>\<^verbatim>\<open>re.sub(r'^certificate[_\-\s]*', '', base, flags=re.IGNORECASE)\<close>.\<close>

definition strip_certificate :: "string \<Rightarrow> string" where
  "strip_certificate s =
     (if py_lower (take 11 s) = ''certificate''
      then dropWhile (\<lambda>c. c = CHR ''_'' \<or> c = CHR ''-'' \<or> is_space c) (drop 11 s)
      else s)"

text \<open>
  \<^verbatim>\<open>re.sub(marker + r'\d+$', '', s)\<close> for the markers \<^verbatim>\<open>_pg\<close> and \<^verbatim>\<open>_\<close>. The digits run to
  where \<^verbatim>\<open>$\<close> holds: the end of the string, or the place before a final newline. The
  marker ends with a non-digit, so the digits are the longest run there.
\<close>

definition sub_digit_suffix :: "string \<Rightarrow> string \<Rightarrow> string" where
  "sub_digit_suffix marker s =
     (let nl = (if s \<noteq> [] \<and> last s = CHR 0x0A then [CHR 0x0A] else []);
          core = take (length s - length nl) s;
          ds = takeWhile is_digit (rev core);
          pre = dropWhile is_digit (rev core)
      in if ds \<noteq> [] \<and> prefix (rev marker) pre
         then rev (drop (length marker) pre) @ nl
         else s)"

text \<open>
  A \<^verbatim>\<open>dict\<close> keeps its keys in insertion order, and the matcher below reads them in that
  order; it is an association list here. Assigning to a key that is present replaces its
  value in place.
\<close>

type_synonym cert_map = "(string \<times> string) list"

fun dict_set :: "cert_map \<Rightarrow> string \<Rightarrow> string \<Rightarrow> cert_map" where
  "dict_set [] k v = [(k, v)]"
| "dict_set ((k', v') # d) k v =
     (if k' = k then (k, v) # d else (k', v') # dict_set d k v)"

text \<open>The key the loop body computes for one file name (lines 108 to 115).\<close>

definition cert_key :: "(string \<Rightarrow> string) \<Rightarrow> string \<Rightarrow> string" where
  "cert_key unidecode filename =
     (let base = splitext_root filename;
          cleaned = strip_certificate base;
          cleaned = sub_digit_suffix ''_pg'' cleaned;
          cleaned = sub_digit_suffix ''_'' cleaned;
          cleaned = py_strip cleaned
      in normalize_name unidecode cleaned)"

text \<open>
  The folder is \<open>None\<close> when it does not exist, and otherwise the list \<^verbatim>\<open>os.listdir\<close>
  returns, in its order.
\<close>

definition build_cert_map :: "(string \<Rightarrow> string) \<Rightarrow> string list option \<Rightarrow> cert_map" where
  "build_cert_map unidecode folder =
     (case folder of
        None \<Rightarrow> []
      | Some listing \<Rightarrow>
          fold (\<lambda>filename certs.
                  if \<not> suffix ''.pdf'' (py_lower filename) then certs
                  else (let norm_key = cert_key unidecode filename
                        in if norm_key \<noteq> [] then dict_set certs norm_key filename else certs))
               listing [])"

section \<open>difflib: SequenceMatcher and get\_close\_matches\<close>

text \<open>
  The matcher calls the standard library's \<^verbatim>\<open>difflib\<close>. A similarity is the float
  \<^verbatim>\<open>2.0 * matches / length\<close>; it is the exact rational here. The comparisons the program
  makes with 0.6 and 0.7 come out the same on the floats as on the rationals, for any two
  strings of fewer than \<open>10\<^sup>1\<^sup>4\<close> characters together.

  \<^verbatim>\<open>SequenceMatcher(None, a, b)\<close> has no junk predicate. With \<^verbatim>\<open>autojunk\<close>, the elements of
  \<open>b\<close> that occur more than \<open>n div 100 + 1\<close> times in a \<open>b\<close> of \<open>n \<ge> 200\<close> elements are
  the popular ones: they start no match, but a match is extended over them.
\<close>

definition popular :: "'a list \<Rightarrow> 'a list" where
  "popular b = (let n = length b in
     if 200 \<le> n then filter (\<lambda>x. n div 100 + 1 < count_list b x) (remdups b) else [])"

definition lm_row :: "'a list \<Rightarrow> 'a list \<Rightarrow> 'a \<Rightarrow> nat list \<Rightarrow> nat list" where
  "lm_row pop b x prev =
     (if x \<in> set pop then map (\<lambda>_. 0) b
      else map (\<lambda>(y, p). if y = x then Suc p else 0) (zip b (0 # prev)))"

fun lm_scan :: "nat \<Rightarrow> nat \<Rightarrow> nat list \<Rightarrow> nat \<times> nat \<times> nat \<Rightarrow> nat \<times> nat \<times> nat" where
  "lm_scan i j [] best = best"
| "lm_scan i j (k # ks) (besti, bestj, bestsize) =
     lm_scan i (Suc j) ks
       (if bestsize < k then (Suc i - k, Suc j - k, k) else (besti, bestj, bestsize))"

fun lm_rows :: "'a list \<Rightarrow> 'a list \<Rightarrow> nat \<Rightarrow> 'a list \<Rightarrow> nat list \<Rightarrow> nat \<times> nat \<times> nat
                  \<Rightarrow> nat \<times> nat \<times> nat" where
  "lm_rows pop b i [] j2len best = best"
| "lm_rows pop b i (x # xs) j2len best =
     (let newj2len = lm_row pop b x j2len
      in lm_rows pop b (Suc i) xs newj2len (lm_scan i 0 newj2len best))"

definition common_prefix_len :: "'a list \<Rightarrow> 'a list \<Rightarrow> nat" where
  "common_prefix_len xs ys = length (takeWhile (\<lambda>(x, y). x = y) (zip xs ys))"

definition find_longest_match :: "'a list \<Rightarrow> 'a list \<Rightarrow> 'a list \<Rightarrow> nat \<times> nat \<times> nat" where
  "find_longest_match pop a b =
     (case lm_rows pop b 0 a (map (\<lambda>_. 0) b) (0, 0, 0) of (besti, bestj, bestsize) \<Rightarrow>
        (let d = common_prefix_len (rev (take besti a)) (rev (take bestj b));
             besti = besti - d; bestj = bestj - d; bestsize = bestsize + d;
             e = common_prefix_len (drop (besti + bestsize) a) (drop (bestj + bestsize) b)
         in (besti, bestj, bestsize + e)))"

lemma lm_scan_bounds:
  "fst best + snd (snd best) \<le> Suc i \<Longrightarrow> fst (snd best) + snd (snd best) \<le> j + length ks
   \<Longrightarrow> \<forall>n < length ks. ks ! n \<le> Suc i \<and> ks ! n \<le> Suc (j + n)
   \<Longrightarrow> fst (lm_scan i j ks best) + snd (snd (lm_scan i j ks best)) \<le> Suc i
     \<and> fst (snd (lm_scan i j ks best)) + snd (snd (lm_scan i j ks best)) \<le> j + length ks"
proof (induction i j ks best rule: lm_scan.induct)
  case (1 i j best)
  then show ?case by simp
next
  case (2 i j k ks besti bestj bestsize)
  have k: "k \<le> Suc i" "k \<le> Suc j" using "2.prems"(3) by auto
  have rest: "\<forall>n < length ks. ks ! n \<le> Suc i \<and> ks ! n \<le> Suc (Suc j + n)"
    using "2.prems"(3) by auto
  show ?case
    using "2.IH"[OF _ _ rest] "2.prems"(1,2) k by (auto split: if_splits)
qed

lemma lm_row_bounds:
  assumes "length prev = length b" "\<forall>n < length b. prev ! n \<le> i \<and> prev ! n \<le> Suc n"
  shows "length (lm_row pop b x prev) = length b
     \<and> (\<forall>n < length b. lm_row pop b x prev ! n \<le> Suc i \<and> lm_row pop b x prev ! n \<le> Suc n)"
proof -
  have "\<And>n. n < length b \<Longrightarrow> (0 # prev) ! n \<le> i \<and> (0 # prev) ! n \<le> n"
  proof -
    fix n assume n: "n < length b"
    show "(0 # prev) ! n \<le> i \<and> (0 # prev) ! n \<le> n"
    proof (cases n)
      case 0
      then show ?thesis by simp
    next
      case (Suc m)
      then have "m < length b" using n by simp
      then show ?thesis using assms(2) Suc by auto
    qed
  qed
  then show ?thesis
    using assms(1) by (auto simp: lm_row_def)
qed

lemma lm_rows_bounds:
  "length prev = length b \<Longrightarrow> \<forall>n < length b. prev ! n \<le> i \<and> prev ! n \<le> Suc n
   \<Longrightarrow> fst best + snd (snd best) \<le> i \<Longrightarrow> fst (snd best) + snd (snd best) \<le> length b
   \<Longrightarrow> fst (lm_rows pop b i xs prev best) + snd (snd (lm_rows pop b i xs prev best)) \<le> i + length xs
     \<and> fst (snd (lm_rows pop b i xs prev best)) + snd (snd (lm_rows pop b i xs prev best)) \<le> length b"
proof (induction xs arbitrary: i prev best)
  case Nil
  then show ?case by simp
next
  case (Cons x xs)
  let ?row = "lm_row pop b x prev"
  have row: "length ?row = length b"
    "\<forall>n < length b. ?row ! n \<le> Suc i \<and> ?row ! n \<le> Suc n"
    using lm_row_bounds[OF Cons.prems(1,2)] by auto
  have sc: "fst (lm_scan i 0 ?row best) + snd (snd (lm_scan i 0 ?row best)) \<le> Suc i
     \<and> fst (snd (lm_scan i 0 ?row best)) + snd (snd (lm_scan i 0 ?row best)) \<le> 0 + length ?row"
    by (rule lm_scan_bounds) (use Cons.prems row in auto)
  show ?case
    using Cons.IH[of ?row "Suc i" "lm_scan i 0 ?row best"] row sc by (simp add: Let_def)
qed

lemma common_prefix_len_le: "common_prefix_len xs ys \<le> length xs" "common_prefix_len xs ys \<le> length ys"
  unfolding common_prefix_len_def
  by (metis length_takeWhile_le length_zip min.cobounded1 le_trans, metis length_takeWhile_le length_zip min.cobounded2 le_trans)

lemma find_longest_match_bounds:
  assumes "find_longest_match pop a b = (i, j, k)"
  shows "i + k \<le> length a \<and> j + k \<le> length b"
proof -
  obtain bi bj bs where r: "lm_rows pop b 0 a (map (\<lambda>_. 0) b) (0, 0, 0) = (bi, bj, bs)"
    by (cases "lm_rows pop b 0 a (map (\<lambda>_. 0) b) (0, 0, 0)") auto
  have b0: "bi + bs \<le> length a \<and> bj + bs \<le> length b"
    using lm_rows_bounds[of "map (\<lambda>_. 0) b" b 0 "(0,0,0)" pop a] r by simp
  define d where "d = common_prefix_len (rev (take bi a)) (rev (take bj b))"
  define e where "e = common_prefix_len (drop (bi - d + (bs + d)) a) (drop (bj - d + (bs + d)) b)"
  have d: "d \<le> bi" "d \<le> bj"
    using common_prefix_len_le[of "rev (take bi a)" "rev (take bj b)"] by (auto simp: d_def)
  have e: "e \<le> length a - (bi + bs)" "e \<le> length b - (bj + bs)"
    using common_prefix_len_le[of "drop (bi - d + (bs + d)) a" "drop (bj - d + (bs + d)) b"] d
    by (auto simp: e_def)
  have "find_longest_match pop a b = (bi - d, bj - d, bs + d + e)"
    by (simp add: find_longest_match_def r Let_def d_def e_def)
  then have "i = bi - d" "j = bj - d" "k = bs + d + e"
    using assms by simp_all
  then show ?thesis using b0 d e by auto
qed

function matches :: "'a list \<Rightarrow> 'a list \<Rightarrow> 'a list \<Rightarrow> nat" where
  "matches pop a b =
     (case find_longest_match pop a b of (i, j, k) \<Rightarrow>
        if k = 0 then 0
        else k + (if 0 < i \<and> 0 < j then matches pop (take i a) (take j b) else 0)
               + (if i + k < length a \<and> j + k < length b
                  then matches pop (drop (i + k) a) (drop (j + k) b) else 0))"
  by pat_completeness auto
termination
  apply (relation "measure (\<lambda>(pop, a, b). length a + length b)")
    apply simp
  subgoal premises p for pop a b
    using p find_longest_match_bounds[of pop a b] by (auto dest!: sym[of "(_, _)"])
  subgoal
    by auto
  done

declare matches.simps [simp del]

definition calculate_ratio :: "nat \<Rightarrow> nat \<Rightarrow> rat" where
  "calculate_ratio m len = (if len \<noteq> 0 then 2 * of_nat m / of_nat len else 1)"

definition ratio :: "'a list \<Rightarrow> 'a list \<Rightarrow> rat" where
  "ratio a b = calculate_ratio (matches (popular b) a b) (length a + length b)"


text \<open>
  \<^verbatim>\<open>ratio\<close> sums the sizes of the matching blocks; \<^verbatim>\<open>get_matching_blocks\<close> finds them by the
  recursion of \<open>matches\<close> (its queue of sub-ranges), and sorting and merging adjacent blocks
  does not change that sum.
\<close>

text \<open>\<^verbatim>\<open>quick_ratio\<close> counts the elements of \<open>a\<close> that \<open>b\<close> has, with multiplicity.\<close>

fun quick_matches :: "'a list \<Rightarrow> 'a list \<Rightarrow> nat" where
  "quick_matches [] avail = 0"
| "quick_matches (x # xs) avail =
     (if x \<in> set avail then Suc (quick_matches xs (remove1 x avail))
      else quick_matches xs avail)"

definition quick_ratio :: "'a list \<Rightarrow> 'a list \<Rightarrow> rat" where
  "quick_ratio a b = calculate_ratio (quick_matches a b) (length a + length b)"

definition real_quick_ratio :: "'a list \<Rightarrow> 'a list \<Rightarrow> rat" where
  "real_quick_ratio a b = calculate_ratio (min (length a) (length b)) (length a + length b)"

text \<open>Python's order on \<^verbatim>\<open>str\<close>: lexicographic, by code point.\<close>

fun str_less :: "string \<Rightarrow> string \<Rightarrow> bool" where
  "str_less [] [] = False"
| "str_less [] (y # ys) = True"
| "str_less (x # xs) [] = False"
| "str_less (x # xs) (y # ys) = ((of_char x :: nat) < of_char y \<or> (x = y \<and> str_less xs ys))"

text \<open>
  \<^verbatim>\<open>get_close_matches(word, possibilities, n=1, cutoff)\<close>, for a cutoff in \<open>[0, 1]\<close> (the only
  call passes 0.7). Each possibility \<open>x\<close> is the first sequence and \<open>word\<close> the second.
  \<^verbatim>\<open>heapq.nlargest(1, result)\<close> is \<^verbatim>\<open>max(result)\<close> on the pairs (score, x): the first
  pair that no later pair exceeds.
\<close>

definition get_close_matches :: "string \<Rightarrow> string list \<Rightarrow> rat \<Rightarrow> string list" where
  "get_close_matches word possibilities cutoff =
     (let result = concat (map (\<lambda>x.
                      if cutoff \<le> real_quick_ratio x word \<and> cutoff \<le> quick_ratio x word
                         \<and> cutoff \<le> ratio x word
                      then [(ratio x word, x)] else []) possibilities)
      in case result of
           [] \<Rightarrow> []
         | r # rs \<Rightarrow>
             [snd (fold (\<lambda>(score, x) (best_score, best).
                           if best_score < score \<or> (best_score = score \<and> str_less best x)
                           then (score, x) else (best_score, best)) rs r)])"

section \<open>automation.py: the matcher and the report builder\<close>

definition fuzzy_match :: "string \<Rightarrow> string list \<Rightarrow> rat \<Rightarrow> string option" where
  "fuzzy_match name cert_keys threshold =
     (case get_close_matches name cert_keys threshold of [] \<Rightarrow> None | m # _ \<Rightarrow> Some m)"

datatype py_error = IndexError | KeyError

datatype match_type = Exact | Fuzzy | Partial

datatype status = Pending | Invalid_email | Matched | Low_confidence_match | Certificate_not_found

record result =
  index :: nat
  original_name :: string
  original_email :: cell
  cleaned_email :: string
  normalized_name :: string
  valid_email :: bool
  certificate_found :: bool
  certificate_filename :: "string option"
  match_type :: "match_type option"
  match_confidence :: rat
  status :: status

text \<open>\<^verbatim>\<open>cert_map[k]\<close> raises \<^verbatim>\<open>KeyError\<close> on a key that is absent.\<close>

definition dict_get :: "cert_map \<Rightarrow> string \<Rightarrow> py_error + string" where
  "dict_get d k = (case map_of d k of None \<Rightarrow> Inl KeyError | Some v \<Rightarrow> Inr v)"

text \<open>\<^verbatim>\<open>max(ks, key=f)\<close> on a non-empty list: the first element no later one exceeds.\<close>

fun max_key :: "('a \<Rightarrow> rat) \<Rightarrow> 'a \<Rightarrow> 'a list \<Rightarrow> 'a" where
  "max_key f best [] = best"
| "max_key f best (k # ks) = max_key f (if f best < f k then k else best) ks"

text \<open>Try 3, the partial match (lines 200 to 216).\<close>

definition partial_tier :: "string \<Rightarrow> cert_map \<Rightarrow> result \<Rightarrow> py_error + result" where
  "partial_tier norm_name cert_map result =
     (case (if norm_name \<noteq> []
            then (case py_split norm_name of [] \<Rightarrow> Inl IndexError | w # _ \<Rightarrow> Inr w)
            else Inr []) of
        Inl e \<Rightarrow> Inl e
      | Inr first_name \<Rightarrow>
          (case filter (\<lambda>k. prefix first_name k \<or> contains first_name k) (map fst cert_map) of
             [] \<Rightarrow> Inr (result\<lparr>status := Certificate_not_found\<rparr>)
           | k # ks \<Rightarrow>
               (let best_match = max_key (\<lambda>k. ratio norm_name k) k ks;
                    confidence = ratio norm_name best_match
                in if 6 / 10 \<le> confidence
                   then (case dict_get cert_map best_match of
                           Inl e \<Rightarrow> Inl e
                         | Inr f \<Rightarrow> Inr (result\<lparr>certificate_found := True,
                                              certificate_filename := Some f,
                                              match_type := Some Partial,
                                              match_confidence := confidence,
                                              status := Matched\<rparr>))
                   else Inr (result\<lparr>status := Certificate_not_found\<rparr>))))"

text \<open>
  Tries 1 and 2, the exact and the fuzzy match (lines 182 to 199). A fuzzy key counts when
  it is neither \<^verbatim>\<open>None\<close> nor the empty string.
\<close>

definition match_tiers :: "string \<Rightarrow> cert_map \<Rightarrow> result \<Rightarrow> py_error + result" where
  "match_tiers norm_name cert_map result =
     (if norm_name \<in> set (map fst cert_map)
      then (case dict_get cert_map norm_name of
              Inl e \<Rightarrow> Inl e
            | Inr f \<Rightarrow> Inr (result\<lparr>certificate_found := True,
                                 certificate_filename := Some f,
                                 match_type := Some Exact,
                                 match_confidence := 1,
                                 status := Matched\<rparr>))
      else (case fuzzy_match norm_name (map fst cert_map) (7 / 10) of
              None \<Rightarrow> partial_tier norm_name cert_map result
            | Some fuzzy_key \<Rightarrow>
                if fuzzy_key = [] then partial_tier norm_name cert_map result
                else (let confidence = ratio norm_name fuzzy_key
                      in case dict_get cert_map fuzzy_key of
                           Inl e \<Rightarrow> Inl e
                         | Inr f \<Rightarrow> Inr (result\<lparr>certificate_found := True,
                                              certificate_filename := Some f,
                                              match_type := Some Fuzzy,
                                              match_confidence := confidence,
                                              status := (if 7 / 10 \<le> confidence then Matched
                                                         else Low_confidence_match)\<rparr>))))"

text \<open>
  The body of the loop over the rows (lines 156 to 218). \<^verbatim>\<open>main\<close> stops before the report
  builder when the sheet has fewer than two columns, so a row is its first two cells.
\<close>

definition process_row ::
    "(string \<Rightarrow> string) \<Rightarrow> cert_map \<Rightarrow> nat \<Rightarrow> cell \<times> cell \<Rightarrow> py_error + result" where
  "process_row unidecode cert_map idx row =
     (let name_raw = py_strip (str_cell (fst row));
          email_raw = snd row;
          email = clean_email email_raw;
          norm_name = normalize_name unidecode name_raw;
          result = \<lparr>index = idx, original_name = name_raw, original_email = email_raw,
                    cleaned_email = email, normalized_name = norm_name,
                    valid_email = (email \<noteq> []), certificate_found = False,
                    certificate_filename = None, match_type = None,
                    match_confidence = 0, status = Pending\<rparr>
      in if \<not> valid_email result then Inr (result\<lparr>status := Invalid_email\<rparr>)
         else match_tiers norm_name cert_map result)"

fun process_rows ::
    "(string \<Rightarrow> string) \<Rightarrow> cert_map \<Rightarrow> nat \<Rightarrow> (cell \<times> cell) list \<Rightarrow> py_error + result list" where
  "process_rows unidecode cert_map idx [] = Inr []"
| "process_rows unidecode cert_map idx (row # rows) =
     (case process_row unidecode cert_map idx row of
        Inl e \<Rightarrow> Inl e
      | Inr r \<Rightarrow> (case process_rows unidecode cert_map (Suc idx) rows of
                    Inl e \<Rightarrow> Inl e
                  | Inr rs \<Rightarrow> Inr (r # rs)))"

text \<open>The header test on the first row (line 146); the start index follows from it.\<close>

definition header_detected :: "(cell \<times> cell) list \<Rightarrow> bool" where
  "header_detected df =
     (case df of
        [] \<Rightarrow> False
      | first_row # _ \<Rightarrow> contains ''name'' (py_lower (str_cell (fst first_row)))
                         \<and> contains ''email'' (py_lower (str_cell (snd first_row))))"

definition validate_data_and_certificates ::
    "(string \<Rightarrow> string) \<Rightarrow> (cell \<times> cell) list \<Rightarrow> cert_map \<Rightarrow> py_error + result list" where
  "validate_data_and_certificates unidecode df cert_map =
     (if df = [] then Inr []
      else (let start_idx = (if header_detected df then 1 else 0)
            in process_rows unidecode cert_map start_idx (drop start_idx df)))"

section \<open>Notions used in the statements\<close>

text \<open>The two ways the matcher leaves a row: no certificate, or one found by some tier.\<close>

definition not_found :: "result \<Rightarrow> result" where
  "not_found result = result\<lparr>status := Certificate_not_found\<rparr>"

definition found :: "result \<Rightarrow> string \<Rightarrow> match_type \<Rightarrow> rat \<Rightarrow> status \<Rightarrow> result" where
  "found result f t c s =
     result\<lparr>certificate_found := True, certificate_filename := Some f,
            match_type := Some t, match_confidence := c, status := s\<rparr>"


text \<open>
  \<^verbatim>\<open>' '.join(ws)\<close>, the words of a normalised name put together again; a string without
  its trailing blanks; and the word lists of normalised names: non-empty words of the
  letters a to z.
\<close>

fun join_words :: "string list \<Rightarrow> string" where
  "join_words [] = []"
| "join_words [w] = w"
| "join_words (w # v # ws) = w @ CHR '' '' # join_words (v # ws)"

definition rstrip :: "string \<Rightarrow> string" where
  "rstrip s = rev (dropWhile is_space (rev s))"

definition clean_words :: "string list \<Rightarrow> bool" where
  "clean_words ws = list_all (\<lambda>w. w \<noteq> [] \<and> list_all is_az w) ws"

text \<open>
  The consistency of a report row's fields with one another and with the index.
\<close>

definition row_consistent :: "cert_map \<Rightarrow> result \<Rightarrow> bool" where
  "row_consistent cert_map r =
     ((certificate_found r \<longleftrightarrow> certificate_filename r \<noteq> None)
      \<and> (certificate_found r \<longleftrightarrow> status r = Matched \<or> status r = Low_confidence_match)
      \<and> (status r = Matched \<longrightarrow> 6 / 10 \<le> match_confidence r)
      \<and> (status r = Low_confidence_match \<longrightarrow>
            match_type r = Some Fuzzy \<and> match_confidence r < 7 / 10)
      \<and> (certificate_found r \<longrightarrow> (\<exists>f \<in> snd ` set cert_map. certificate_filename r = Some f)))"

section \<open>Properties of the skip-line predicate\<close>

text \<open>
  Claim C9. A line that splits, at blanks, into two or more tokens, every token made of
  alphabetic characters only, and whose first token (compared in lower case, as the code
  does) is none of certificate, this, issued, presented, participant, congratulations,
  is never skipped, whatever skip keywords occur inside it.
\<close>

theorem should_skip_line_name_override:
  assumes "py_split line = ws"
    and "2 \<le> length ws"
    and "\<forall>w \<in> set ws. w \<noteq> [] \<and> (\<forall>c \<in> set w. is_alpha c)"
    and "py_lower (hd ws) \<notin> set admin_words"
  shows "\<not> should_skip_line line"
proof -
  from assms(2) obtain first second rest where ws: "ws = first # second # rest"
    by (cases ws; cases "tl ws") auto
  have "list_all str_isalpha ws"
    using assms(3) by (simp add: list_all_iff str_isalpha_def)
  moreover have "py_lower first \<notin> set admin_words"
    using assms(4) ws by simp
  ultimately show ?thesis
    using assms(1) ws by (simp add: should_skip_line_def)
qed

theorem should_skip_line_name_override_witness:
  "py_split ''Anderson Ford'' = [''Anderson'', ''Ford'']
   \<and> contains ''and'' (py_strip (py_lower ''Anderson Ford''))
   \<and> contains ''for'' (py_strip (py_lower ''Anderson Ford''))
   \<and> \<not> should_skip_line ''Anderson Ford''"
proof -
  have s: "py_split ''Anderson Ford'' = [''Anderson'', ''Ford'']"
    by code_simp
  have a: "\<forall>w \<in> set [''Anderson'', ''Ford'']. w \<noteq> [] \<and> (\<forall>c \<in> set w. is_alpha c)"
    by code_simp
  have n: "py_lower (hd [''Anderson'', ''Ford'']) \<notin> set admin_words"
    by code_simp
  have k1: "contains ''and'' (py_strip (py_lower ''Anderson Ford''))"
    by code_simp
  have k2: "contains ''for'' (py_strip (py_lower ''Anderson Ford''))"
    by code_simp
  have "\<not> should_skip_line ''Anderson Ford''"
    using should_skip_line_name_override [OF s _ a n] by simp
  with s k1 k2 show ?thesis by simp
qed

section \<open>Properties of the matcher\<close>

lemma dict_get_key:
  assumes "k \<in> set (map fst d)"
  shows "\<exists>f. map_of d k = Some f \<and> dict_get d k = Inr f \<and> f \<in> snd ` set d"
proof -
  from assms obtain f where f: "map_of d k = Some f"
    by (metis map_of_eq_None_iff not_Some_eq set_map)
  then have "f \<in> snd ` set d"
    by (metis map_of_SomeD snd_conv image_eqI)
  with f show ?thesis by (simp add: dict_get_def)
qed

lemma max_key_in: "max_key f best ks \<in> set (best # ks)"
  by (induction ks arbitrary: best) auto

lemma close_fold_in:
  "snd (fold (\<lambda>(score, x) (best_score, best).
          if best_score < score \<or> (best_score = score \<and> str_less best x)
          then (score, x) else (best_score, best)) rs r) \<in> snd ` set (r # rs)"
proof (induction rs arbitrary: r)
  case Nil
  then show ?case by simp
next
  case (Cons a rs)
  obtain s x where a: "a = (s, x)" by (cases a)
  obtain bs b where r: "r = (bs, b)" by (cases r)
  show ?case using Cons[of "(s, x)"] Cons[of "(bs, b)"] by (auto simp: a r)
qed

lemma get_close_matches_sound:
  assumes "get_close_matches word possibilities cutoff = m # ms"
  shows "m \<in> set possibilities \<and> cutoff \<le> real_quick_ratio m word \<and> cutoff \<le> ratio m word"
proof -
  define result where "result = concat (map (\<lambda>x.
      if cutoff \<le> real_quick_ratio x word \<and> cutoff \<le> quick_ratio x word \<and> cutoff \<le> ratio x word
      then [(ratio x word, x)] else []) possibilities)"
  have mem: "\<And>p. p \<in> set result \<Longrightarrow>
      snd p \<in> set possibilities \<and> cutoff \<le> real_quick_ratio (snd p) word \<and> cutoff \<le> ratio (snd p) word"
    by (auto simp: result_def split: if_splits)
  from assms obtain r rs where rr: "result = r # rs"
    by (cases result) (auto simp: get_close_matches_def result_def[symmetric] Let_def)
  with assms have "m \<in> snd ` set (r # rs)"
    using close_fold_in[of rs r]
    by (auto simp: get_close_matches_def result_def[symmetric] Let_def)
  then obtain p where "p \<in> set (r # rs)" "m = snd p"
    by (elim imageE)
  then have "p \<in> set result" "m = snd p"
    using rr by simp_all
  then show ?thesis using mem[of p] by simp
qed

lemma fuzzy_match_sound:
  assumes "fuzzy_match name cert_keys threshold = Some k"
  shows "k \<in> set cert_keys \<and> threshold \<le> real_quick_ratio k name \<and> threshold \<le> ratio k name"
  using assms get_close_matches_sound[of name cert_keys threshold]
  by (auto simp: fuzzy_match_def split: list.splits)


lemma real_quick_ratio_Nil2: "real_quick_ratio k [] = (if k = [] then 1 else 0)"
  by (simp add: real_quick_ratio_def calculate_ratio_def)


lemma find_longest_match_Nil: "find_longest_match pop [] b = (0, 0, 0)"
  by (simp add: find_longest_match_def common_prefix_len_def)

lemma matches_Nil: "matches pop [] b = 0"
  by (subst matches.simps) (simp add: find_longest_match_Nil)

lemma ratio_Nil: "b \<noteq> [] \<Longrightarrow> ratio [] b = 0"
  by (simp add: ratio_def calculate_ratio_def matches_Nil)

lemma fuzzy_match_Nil:
  assumes "[] \<notin> set cert_keys"
  shows "fuzzy_match [] cert_keys (7 / 10) = None"
proof (cases "fuzzy_match [] cert_keys (7 / 10)")
  case None
  then show ?thesis .
next
  case (Some k)
  from fuzzy_match_sound[OF Some] assms show ?thesis
    by (auto simp: real_quick_ratio_Nil2 split: if_splits)
qed

lemma partial_tier_Nil:
  assumes "[] \<notin> set (map fst cert_map)"
  shows "partial_tier [] cert_map result = Inr (result\<lparr>status := Certificate_not_found\<rparr>)"
proof (cases "map fst cert_map")
  case Nil
  then show ?thesis by (simp add: partial_tier_def)
next
  case (Cons k ks)
  have all: "filter (\<lambda>k. prefix [] k \<or> contains [] k) (map fst cert_map) = k # ks"
    using Cons by simp
  have "max_key (\<lambda>k. ratio [] k) k ks \<in> set (map fst cert_map)"
    using max_key_in[of "\<lambda>k. ratio [] k" k ks] Cons by simp
  then have "max_key (\<lambda>k. ratio [] k) k ks \<noteq> []"
    using assms by metis
  then have "ratio [] (max_key (\<lambda>k. ratio [] k) k ks) = 0"
    by (rule ratio_Nil)
  then show ?thesis
    unfolding partial_tier_def using all by (simp add: Let_def)
qed

lemma match_tiers_Nil:
  assumes "[] \<notin> set (map fst cert_map)"
  shows "match_tiers [] cert_map result = Inr (result\<lparr>status := Certificate_not_found\<rparr>)"
  using assms fuzzy_match_Nil[OF assms] partial_tier_Nil[OF assms]
  by (simp add: match_tiers_def)

lemma dict_set_keys: "set (map fst (dict_set d k v)) = insert k (set (map fst d))"
  by (induction d k v rule: dict_set.induct) auto

lemma build_cert_map_fold_keys:
  "[] \<notin> set (map fst certs) \<Longrightarrow>
   [] \<notin> set (map fst (fold (\<lambda>filename certs.
                  if \<not> suffix ''.pdf'' (py_lower filename) then certs
                  else (let norm_key = cert_key unidecode filename
                        in if norm_key \<noteq> [] then dict_set certs norm_key filename else certs))
               listing certs))"
proof (induction listing arbitrary: certs)
  case Nil
  then show ?case by simp
next
  case (Cons f fs)
  show ?case
    apply (simp only: fold_Cons comp_apply)
    apply (rule Cons.IH)
    using Cons.prems by (auto simp: Let_def dict_set_keys simp del: set_map)
qed

lemma build_cert_map_keys_nonempty: "[] \<notin> set (map fst (build_cert_map unidecode folder))"
proof (cases folder)
  case None
  then show ?thesis by (simp add: build_cert_map_def)
next
  case (Some listing)
  then show ?thesis
    using build_cert_map_fold_keys[of "[]" unidecode listing]
    by (simp add: build_cert_map_def)
qed


lemma py_split_Nil_iff: "py_split s = [] \<longleftrightarrow> (\<forall>c \<in> set s. is_space c)"
proof (cases "dropWhile is_space s")
  case Nil
  have "py_split s = []" by (subst py_split.simps) (simp only: Nil list.simps)
  moreover have "\<forall>c \<in> set s. is_space c"
    using Nil by (simp add: dropWhile_eq_Nil_conv)
  ultimately show ?thesis by simp
next
  case (Cons c cs)
  have "py_split s \<noteq> []" by (subst py_split.simps) (simp only: Cons list.simps not_False_eq_True)
  moreover have "\<not> is_space c"
    using hd_dropWhile[of is_space s] Cons by simp
  moreover have "c \<in> set s"
    using set_dropWhileD[of c is_space s] Cons by simp
  ultimately show ?thesis by blast
qed

lemma py_strip_split_nonempty:
  assumes "py_strip s \<noteq> []"
  shows "py_split (py_strip s) \<noteq> []"
proof -
  let ?v = "rev (dropWhile is_space s)"
  have ne: "dropWhile is_space ?v \<noteq> []"
    using assms by (simp add: py_strip_def)
  then have "\<not> is_space (hd (dropWhile is_space ?v))"
    by (rule hd_dropWhile)
  moreover have "hd (dropWhile is_space ?v) \<in> set (py_strip s)"
    using ne by (simp add: py_strip_def)
  ultimately show ?thesis
    by (auto simp: py_split_Nil_iff)
qed

lemma normalize_name_split_nonempty:
  "normalize_name unidecode x \<noteq> [] \<Longrightarrow> py_split (normalize_name unidecode x) \<noteq> []"
  unfolding normalize_name_def Let_def by (rule py_strip_split_nonempty)

lemma partial_tier_cases:
  assumes "norm_name \<noteq> [] \<longrightarrow> py_split norm_name \<noteq> []"
  shows "partial_tier norm_name cert_map result = Inr (not_found result)
       \<or> (\<exists>k f. map_of cert_map k = Some f \<and> 6 / 10 \<le> ratio norm_name k \<and>
             partial_tier norm_name cert_map result =
               Inr (found result f Partial (ratio norm_name k) Matched))"
proof -
  obtain first_name where fn:
    "(if norm_name \<noteq> []
      then (case py_split norm_name of [] \<Rightarrow> Inl IndexError | w # _ \<Rightarrow> Inr w)
      else Inr []) = Inr first_name"
  proof (cases "norm_name = []")
    case True
    then show ?thesis using that by simp
  next
    case False
    with assms obtain w ws where "py_split norm_name = w # ws"
      by (cases "py_split norm_name") auto
    with False show ?thesis using that by simp
  qed
  let ?cands = "filter (\<lambda>k. prefix first_name k \<or> contains first_name k) (map fst cert_map)"
  show ?thesis
  proof (cases ?cands)
    case Nil
    then show ?thesis
      unfolding partial_tier_def fn by (simp add: not_found_def)
  next
    case (Cons k ks)
    let ?best = "max_key (\<lambda>k. ratio norm_name k) k ks"
    have "?best \<in> set ?cands"
      using max_key_in[of "\<lambda>k. ratio norm_name k" k ks] Cons by simp
    then have "?best \<in> set (map fst cert_map)" by simp
    from dict_get_key[OF this] obtain f where f:
      "map_of cert_map ?best = Some f" "dict_get cert_map ?best = Inr f" by auto
    show ?thesis
    proof (cases "6 / 10 \<le> ratio norm_name ?best")
      case True
      have "partial_tier norm_name cert_map result =
              Inr (found result f Partial (ratio norm_name ?best) Matched)"
        unfolding partial_tier_def fn using Cons True f(2)
        by (simp add: Let_def found_def)
      with f(1) True show ?thesis by blast
    next
      case False
      then show ?thesis
        unfolding partial_tier_def fn using Cons by (simp add: Let_def not_found_def)
    qed
  qed
qed

lemma match_tiers_cases:
  assumes "norm_name \<noteq> [] \<longrightarrow> py_split norm_name \<noteq> []"
  shows "match_tiers norm_name cert_map result = Inr (not_found result)
       \<or> (\<exists>k f t c s. map_of cert_map k = Some f \<and>
             match_tiers norm_name cert_map result = Inr (found result f t c s) \<and>
             (t = Exact \<and> c = 1 \<and> s = Matched \<and> k = norm_name
              \<or> t = Fuzzy \<and> c = ratio norm_name k \<and> 7 / 10 \<le> c \<and> s = Matched
              \<or> t = Fuzzy \<and> c = ratio norm_name k \<and> c < 7 / 10 \<and> s = Low_confidence_match
              \<or> t = Partial \<and> c = ratio norm_name k \<and> 6 / 10 \<le> c \<and> s = Matched))"
proof (cases "norm_name \<in> set (map fst cert_map)")
  case True
  from dict_get_key[OF True] obtain f where f:
    "map_of cert_map norm_name = Some f" "dict_get cert_map norm_name = Inr f" by auto
  have "match_tiers norm_name cert_map result = Inr (found result f Exact 1 Matched)"
    using True f(2) by (simp add: match_tiers_def found_def)
  with f(1) show ?thesis by blast
next
  case False
  have part: "partial_tier norm_name cert_map result = Inr (not_found result)
       \<or> (\<exists>k f. map_of cert_map k = Some f \<and> 6 / 10 \<le> ratio norm_name k \<and>
             partial_tier norm_name cert_map result =
               Inr (found result f Partial (ratio norm_name k) Matched))"
    by (rule partial_tier_cases[OF assms])
  show ?thesis
  proof (cases "fuzzy_match norm_name (map fst cert_map) (7 / 10)")
    case None
    then have "match_tiers norm_name cert_map result = partial_tier norm_name cert_map result"
      using False by (simp add: match_tiers_def)
    with part show ?thesis by metis
  next
    case (Some k)
    show ?thesis
    proof (cases "k = []")
      case True
      then have "match_tiers norm_name cert_map result = partial_tier norm_name cert_map result"
        using False Some by (simp add: match_tiers_def)
      with part show ?thesis by metis
    next
      case kn: False
      from fuzzy_match_sound[OF Some] have "k \<in> set (map fst cert_map)" by simp
      from dict_get_key[OF this] obtain f where f:
        "map_of cert_map k = Some f" "dict_get cert_map k = Inr f" by auto
      have eq: "match_tiers norm_name cert_map result =
              Inr (found result f Fuzzy (ratio norm_name k)
                     (if 7 / 10 \<le> ratio norm_name k then Matched else Low_confidence_match))"
        using False Some kn f(2) by (simp add: match_tiers_def Let_def found_def)
      show ?thesis
      proof (cases "7 / 10 \<le> ratio norm_name k")
        case True
        with eq have "match_tiers norm_name cert_map result =
              Inr (found result f Fuzzy (ratio norm_name k) Matched)" by simp
        with f(1) True show ?thesis by blast
      next
        case False
        then have lt: "ratio norm_name k < 7 / 10" by simp
        from False eq have "match_tiers norm_name cert_map result =
              Inr (found result f Fuzzy (ratio norm_name k) Low_confidence_match)" by simp
        with f(1) lt show ?thesis by blast
      qed
    qed
  qed
qed

lemma process_row_total:
  "\<exists>r. process_row unidecode cert_map idx row = Inr r
       \<and> index r = idx
       \<and> original_name r = py_strip (str_cell (fst row))
       \<and> original_email r = snd row
       \<and> row_consistent cert_map r"
proof -
  let ?n = "normalize_name unidecode (py_strip (str_cell (fst row)))"
  let ?res = "\<lparr>index = idx, original_name = py_strip (str_cell (fst row)),
               original_email = snd row, cleaned_email = clean_email (snd row),
               normalized_name = ?n, valid_email = (clean_email (snd row) \<noteq> []),
               certificate_found = False, certificate_filename = None, match_type = None,
               match_confidence = 0, status = Pending\<rparr>"
  show ?thesis
  proof (cases "clean_email (snd row) = []")
    case True
    then show ?thesis
      by (simp add: process_row_def Let_def row_consistent_def)
  next
    case False
    then have pr: "process_row unidecode cert_map idx row = match_tiers ?n cert_map ?res"
      by (simp add: process_row_def Let_def)
    have sp: "?n \<noteq> [] \<longrightarrow> py_split ?n \<noteq> []"
      using normalize_name_split_nonempty by blast
    from match_tiers_cases[OF sp, of cert_map ?res]
    show ?thesis
    proof
      assume "match_tiers ?n cert_map ?res = Inr (not_found ?res)"
      then show ?thesis
        unfolding pr by (simp add: not_found_def row_consistent_def)
    next
      assume "\<exists>k f t c s. map_of cert_map k = Some f \<and>
             match_tiers ?n cert_map ?res = Inr (found ?res f t c s) \<and>
             (t = Exact \<and> c = 1 \<and> s = Matched \<and> k = ?n
              \<or> t = Fuzzy \<and> c = ratio ?n k \<and> 7 / 10 \<le> c \<and> s = Matched
              \<or> t = Fuzzy \<and> c = ratio ?n k \<and> c < 7 / 10 \<and> s = Low_confidence_match
              \<or> t = Partial \<and> c = ratio ?n k \<and> 6 / 10 \<le> c \<and> s = Matched)"
      then obtain k f t c s where m: "map_of cert_map k = Some f"
        and r: "match_tiers ?n cert_map ?res = Inr (found ?res f t c s)"
        and c: "t = Exact \<and> c = 1 \<and> s = Matched \<and> k = ?n
              \<or> t = Fuzzy \<and> c = ratio ?n k \<and> 7 / 10 \<le> c \<and> s = Matched
              \<or> t = Fuzzy \<and> c = ratio ?n k \<and> c < 7 / 10 \<and> s = Low_confidence_match
              \<or> t = Partial \<and> c = ratio ?n k \<and> 6 / 10 \<le> c \<and> s = Matched"
        by blast
      have fin: "f \<in> snd ` set cert_map"
        using m by (metis map_of_SomeD snd_conv image_eqI)
      have "row_consistent cert_map (found ?res f t c s)"
        using c fin by (auto simp: row_consistent_def found_def)
      then show ?thesis
        unfolding pr r by (simp add: found_def)
    qed
  qed
qed

lemma process_rows_total:
  "\<exists>rs. process_rows unidecode cert_map idx rows = Inr rs
        \<and> length rs = length rows
        \<and> (\<forall>i < length rows.
              index (rs ! i) = idx + i
              \<and> original_name (rs ! i) = py_strip (str_cell (fst (rows ! i)))
              \<and> original_email (rs ! i) = snd (rows ! i)
              \<and> row_consistent cert_map (rs ! i))"
proof (induction rows arbitrary: idx)
  case Nil
  then show ?case by simp
next
  case (Cons row rows)
  from process_row_total[of unidecode cert_map idx row] obtain r where r:
    "process_row unidecode cert_map idx row = Inr r" "index r = idx"
    "original_name r = py_strip (str_cell (fst row))" "original_email r = snd row"
    "row_consistent cert_map r" by blast
  from Cons.IH[of "Suc idx"] obtain rs where rs:
    "process_rows unidecode cert_map (Suc idx) rows = Inr rs" "length rs = length rows"
    "\<forall>i < length rows.
              index (rs ! i) = Suc idx + i
              \<and> original_name (rs ! i) = py_strip (str_cell (fst (rows ! i)))
              \<and> original_email (rs ! i) = snd (rows ! i)
              \<and> row_consistent cert_map (rs ! i)" by blast
  have "process_rows unidecode cert_map idx (row # rows) = Inr (r # rs)"
    using r(1) rs(1) by simp
  moreover have "\<forall>i < length (row # rows).
              index ((r # rs) ! i) = idx + i
              \<and> original_name ((r # rs) ! i) = py_strip (str_cell (fst ((row # rows) ! i)))
              \<and> original_email ((r # rs) ! i) = snd ((row # rows) ! i)
              \<and> row_consistent cert_map ((r # rs) ! i)"
  proof (intro allI impI)
    fix i assume "i < length (row # rows)"
    then show "index ((r # rs) ! i) = idx + i
              \<and> original_name ((r # rs) ! i) = py_strip (str_cell (fst ((row # rows) ! i)))
              \<and> original_email ((r # rs) ! i) = snd ((row # rows) ! i)
              \<and> row_consistent cert_map ((r # rs) ! i)"
      using r rs(3) by (cases i) auto
  qed
  ultimately show ?case using rs(2) by auto
qed





text \<open>
  Claim C8. Exact tier: a query key that is an entry of the index is matched with tier
  exact, confidence 1.0 and the file name the index holds for it. The result does not
  depend on the fuzzy or the partial tier.
\<close>

theorem match_tiers_exact:
  assumes "map_of cert_map key = Some f"
  shows "match_tiers key cert_map result =
           Inr (result\<lparr>certificate_found := True, certificate_filename := Some f,
                       match_type := Some Exact, match_confidence := 1, status := Matched\<rparr>)"
proof -
  have "key \<in> set (map fst cert_map)"
    using assms by (metis map_of_eq_None_iff option.distinct(1) set_map)
  then show ?thesis using assms by (simp add: match_tiers_def dict_get_def)
qed

theorem match_tiers_exact_witness:
  "map_of [(''harsha'', ''Certificate_Harsha_pg001.pdf''),
           (''amitkumar'', ''Certificate_Amit_Kumar_2.pdf'')] ''harsha''
     = Some ''Certificate_Harsha_pg001.pdf''
   \<and> process_row unidecode_ascii
         [(''harsha'', ''Certificate_Harsha_pg001.pdf''),
          (''amitkumar'', ''Certificate_Amit_Kumar_2.pdf'')]
         0 (Text ''Harsha'', Text ''harsha@gmail.com'')
     = Inr \<lparr>index = 0, original_name = ''Harsha'', original_email = Text ''harsha@gmail.com'',
            cleaned_email = ''harsha@gmail.com'', normalized_name = ''harsha'',
            valid_email = True, certificate_found = True,
            certificate_filename = Some ''Certificate_Harsha_pg001.pdf'',
            match_type = Some Exact, match_confidence = 1, status = Matched\<rparr>"
proof -
  have m: "map_of [(''harsha'', ''Certificate_Harsha_pg001.pdf''),
                   (''amitkumar'', ''Certificate_Amit_Kumar_2.pdf'')] ''harsha''
             = Some ''Certificate_Harsha_pg001.pdf''"
    by simp
  have e: "clean_email (Text ''harsha@gmail.com'') = ''harsha@gmail.com''"
    by code_simp
  have n: "normalize_name unidecode_ascii (py_strip ''Harsha'') = ''harsha''"
    by code_simp
  have s: "py_strip ''Harsha'' = ''Harsha''"
    by code_simp
  show ?thesis
    using match_tiers_exact [OF m] m e n s by (simp add: process_row_def Let_def)
qed







text \<open>
  Claim C7. The empty key matches nothing in an index built by \<open>build_cert_map\<close>: the
  matcher only sets the status, to certificate\_not\_found, and leaves the row's
  certificate\_found (false), file name (none), tier (none) and confidence (0.0) as the
  report builder initialised them.
\<close>

theorem empty_key_never_matches:
  "match_tiers [] (build_cert_map unidecode folder) result =
     Inr (result\<lparr>status := Certificate_not_found\<rparr>)"
  by (rule match_tiers_Nil) (rule build_cert_map_keys_nonempty)

theorem empty_key_never_matches_witness:
  "build_cert_map unidecode_ascii (Some [''Harsha.pdf'']) = [(''harsha'', ''Harsha.pdf'')]
   \<and> process_row unidecode_ascii (build_cert_map unidecode_ascii (Some [''Harsha.pdf''])) 0
         (Text ''Dr.'', Text ''doc@gmail.com'')
     = Inr \<lparr>index = 0, original_name = ''Dr.'', original_email = Text ''doc@gmail.com'',
            cleaned_email = ''doc@gmail.com'', normalized_name = [],
            valid_email = True, certificate_found = False,
            certificate_filename = None, match_type = None,
            match_confidence = 0, status = Certificate_not_found\<rparr>"
proof -
  have b: "build_cert_map unidecode_ascii (Some [''Harsha.pdf'']) = [(''harsha'', ''Harsha.pdf'')]"
    by code_simp
  have e: "clean_email (Text ''doc@gmail.com'') = ''doc@gmail.com''"
    by code_simp
  have n: "normalize_name unidecode_ascii (py_strip ''Dr.'') = []"
    by code_simp
  have s: "py_strip ''Dr.'' = ''Dr.''"
    by code_simp
  show ?thesis
    using empty_key_never_matches [of unidecode_ascii "Some [''Harsha.pdf'']"] b e n s
    by (simp add: process_row_def Let_def)
qed

section \<open>Properties of the report builder\<close>

text \<open>
  Claim C10, as the code has it. In every record of the report: a certificate is found
  exactly when a file name is present, exactly when the status is matched or
  low\_confidence\_match; a matched row has confidence at least 0.6; a low-confidence row
  comes from the fuzzy tier with confidence below 0.7; and a file name that is present is
  a value of the index. The bound 0.6 does not hold for every row with a certificate: the
  fuzzy tier keeps a candidate whose score \<open>ratio key query\<close> reaches 0.7 whatever the
  confidence \<open>ratio query key\<close> is, 0.3 in the row below.
\<close>

theorem report_rows_consistent:
  assumes "validate_data_and_certificates unidecode df cert_map = Inr rs"
    and "r \<in> set rs"
  shows "(certificate_found r \<longleftrightarrow> certificate_filename r \<noteq> None)
       \<and> (certificate_found r \<longleftrightarrow> status r = Matched \<or> status r = Low_confidence_match)
       \<and> (status r = Matched \<longrightarrow> 6 / 10 \<le> match_confidence r)
       \<and> (status r = Low_confidence_match \<longrightarrow>
             match_type r = Some Fuzzy \<and> match_confidence r < 7 / 10)
       \<and> (certificate_found r \<longrightarrow> (\<exists>f \<in> snd ` set cert_map. certificate_filename r = Some f))"
proof (cases "df = []")
  case True
  with assms show ?thesis by (simp add: validate_data_and_certificates_def)
next
  case False
  define start where "start = (if header_detected df then 1 else 0 :: nat)"
  have v: "process_rows unidecode cert_map start (drop start df) = Inr rs"
    using assms(1) False by (simp add: validate_data_and_certificates_def start_def Let_def)
  from process_rows_total[of unidecode cert_map start "drop start df"] v
  have len: "length rs = length (drop start df)"
    and all: "\<forall>i < length (drop start df). row_consistent cert_map (rs ! i)"
    by auto
  from assms(2) obtain i where "i < length rs" "r = rs ! i"
    by (auto simp: in_set_conv_nth)
  with len all have "row_consistent cert_map r" by simp
  then show ?thesis unfolding row_consistent_def .
qed

theorem report_rows_consistent_witness:
  "validate_data_and_certificates unidecode_ascii
      [(Text ''Harsha N'', Text ''harsha@gmsil.com'')] [(''harsha'', ''Harsha.pdf'')]
     = Inr [\<lparr>index = 0, original_name = ''Harsha N'', original_email = Text ''harsha@gmsil.com'',
             cleaned_email = ''harsha@gmail.com'', normalized_name = ''harsha n'',
             valid_email = True, certificate_found = True,
             certificate_filename = Some ''Harsha.pdf'',
             match_type = Some Fuzzy, match_confidence = 6 / 7, status = Matched\<rparr>]
   \<and> (6 :: rat) / 10 \<le> 6 / 7
   \<and> ''Harsha.pdf'' \<in> snd ` set [(''harsha'', ''Harsha.pdf'')]"
proof -
  let ?r = "\<lparr>index = 0, original_name = ''Harsha N'', original_email = Text ''harsha@gmsil.com'',
             cleaned_email = ''harsha@gmail.com'', normalized_name = ''harsha n'',
             valid_email = True, certificate_found = True,
             certificate_filename = Some ''Harsha.pdf'',
             match_type = Some Fuzzy, match_confidence = 6 / 7, status = Matched\<rparr>"
  have v: "validate_data_and_certificates unidecode_ascii
      [(Text ''Harsha N'', Text ''harsha@gmsil.com'')] [(''harsha'', ''Harsha.pdf'')] = Inr [?r]"
    by code_simp
  have "?r \<in> set [?r]" by simp
  from report_rows_consistent [OF v this] v show ?thesis by simp
qed

theorem report_row_confidence_counterexample:
  "validate_data_and_certificates unidecode_ascii
      [(Text ''Usha Asha'', Text ''usha@gmail.com'')] [(''neha harsha'', ''Neha Harsha.pdf'')]
     = Inr [\<lparr>index = 0, original_name = ''Usha Asha'', original_email = Text ''usha@gmail.com'',
             cleaned_email = ''usha@gmail.com'', normalized_name = ''usha asha'',
             valid_email = True, certificate_found = True,
             certificate_filename = Some ''Neha Harsha.pdf'',
             match_type = Some Fuzzy, match_confidence = 3 / 10,
             status = Low_confidence_match\<rparr>]
   \<and> \<not> (6 :: rat) / 10 \<le> 3 / 10"
  by code_simp

text \<open>
  Claim C5, as the code has it. The report builder never raises, and the report holds one
  record for each row from the start index on, in the order of the rows, each with its
  row's index, name and e-mail cell, whatever the outcome of the match. The start index
  is 1 when the first row is taken for a header and 0 otherwise, so a sheet of N rows
  gives N records, or N - 1 when its first row has ``name'' in the first cell and
  ``email'' in the second.
\<close>

theorem report_one_record_per_row:
  "\<exists>rs. validate_data_and_certificates unidecode df cert_map = Inr rs
      \<and> length rs = length df - (if header_detected df then 1 else 0)
      \<and> (\<forall>i < length rs.
            index (rs ! i) = (if header_detected df then 1 else 0) + i
            \<and> original_name (rs ! i)
                = py_strip (str_cell (fst (df ! ((if header_detected df then 1 else 0) + i))))
            \<and> original_email (rs ! i) = snd (df ! ((if header_detected df then 1 else 0) + i)))"
proof (cases "df = []")
  case True
  then show ?thesis by (simp add: validate_data_and_certificates_def)
next
  case False
  define start where "start = (if header_detected df then 1 else 0 :: nat)"
  have v: "validate_data_and_certificates unidecode df cert_map
             = process_rows unidecode cert_map start (drop start df)"
    using False by (simp add: validate_data_and_certificates_def start_def Let_def)
  from process_rows_total[of unidecode cert_map start "drop start df"]
  obtain rs where rs: "process_rows unidecode cert_map start (drop start df) = Inr rs"
    "length rs = length (drop start df)"
    "\<forall>i < length (drop start df).
        index (rs ! i) = start + i
        \<and> original_name (rs ! i) = py_strip (str_cell (fst (drop start df ! i)))
        \<and> original_email (rs ! i) = snd (drop start df ! i)"
    by blast
  have "\<forall>i < length rs.
        index (rs ! i) = start + i
        \<and> original_name (rs ! i) = py_strip (str_cell (fst (df ! (start + i))))
        \<and> original_email (rs ! i) = snd (df ! (start + i))"
    using rs(2,3) by (auto simp: nth_drop)
  with rs(1,2) v show ?thesis
    unfolding start_def[symmetric] by auto
qed

theorem report_one_record_per_row_witness:
  "header_detected [(Text ''Full Name'', Text ''Email Address''),
                    (Text ''Harsha'', Text ''harsha@gmail.com''), (NaN, Text ''nobody'')]
   \<and> (\<exists>rs. validate_data_and_certificates unidecode_ascii
               [(Text ''Full Name'', Text ''Email Address''),
                (Text ''Harsha'', Text ''harsha@gmail.com''), (NaN, Text ''nobody'')]
               [(''harsha'', ''Harsha.pdf'')] = Inr rs
          \<and> length rs = 2
          \<and> index (rs ! 0) = 1 \<and> original_name (rs ! 0) = ''Harsha''
          \<and> original_email (rs ! 0) = Text ''harsha@gmail.com''
          \<and> index (rs ! 1) = 2 \<and> original_name (rs ! 1) = ''nan''
          \<and> original_email (rs ! 1) = Text ''nobody'')"
proof -
  let ?df = "[(Text ''Full Name'', Text ''Email Address''),
              (Text ''Harsha'', Text ''harsha@gmail.com''), (NaN, Text ''nobody'')]"
  have h: "header_detected ?df" by code_simp
  have s: "py_strip ''Harsha'' = ''Harsha''" "py_strip ''nan'' = ''nan''" by code_simp+
  from report_one_record_per_row [of unidecode_ascii ?df "[(''harsha'', ''Harsha.pdf'')]"]
  obtain rs where rs: "validate_data_and_certificates unidecode_ascii ?df
                         [(''harsha'', ''Harsha.pdf'')] = Inr rs"
    "length rs = 2"
    "\<forall>i < length rs. index (rs ! i) = 1 + i
        \<and> original_name (rs ! i) = py_strip (str_cell (fst (?df ! (1 + i))))
        \<and> original_email (rs ! i) = snd (?df ! (1 + i))"
    using h by auto
  from rs(2,3) have "index (rs ! 0) = 1 \<and> original_name (rs ! 0) = ''Harsha''
          \<and> original_email (rs ! 0) = Text ''harsha@gmail.com''"
    using s by (elim allE[of _ 0]) simp
  moreover from rs(2,3) have "index (rs ! 1) = 2 \<and> original_name (rs ! 1) = ''nan''
          \<and> original_email (rs ! 1) = Text ''nobody''"
    using s by (elim allE[of _ 1]) simp
  ultimately show ?thesis using h rs(1,2) by blast
qed

theorem report_header_row_counterexample:
  "length [(Text ''Sunamee Rao'', Text ''sunamee.email@gmail.com''),
           (Text ''Harsha'', Text ''harsha@gmail.com'')] = 2
   \<and> validate_data_and_certificates unidecode_ascii
        [(Text ''Sunamee Rao'', Text ''sunamee.email@gmail.com''),
         (Text ''Harsha'', Text ''harsha@gmail.com'')]
        [(''harsha'', ''Harsha.pdf''), (''sunamee rao'', ''Sunamee Rao.pdf'')]
     = Inr [\<lparr>index = 1, original_name = ''Harsha'', original_email = Text ''harsha@gmail.com'',
             cleaned_email = ''harsha@gmail.com'', normalized_name = ''harsha'',
             valid_email = True, certificate_found = True,
             certificate_filename = Some ''Harsha.pdf'',
             match_type = Some Exact, match_confidence = 1, status = Matched\<rparr>]"
  by code_simp

section \<open>Properties of the index\<close>

lemma map_of_dict_set: "map_of (dict_set d k v) = (map_of d)(k \<mapsto> v)"
  by (induction d k v rule: dict_set.induct) (auto simp: fun_eq_iff)

lemma distinct_dict_set:
  "distinct (map fst d) \<Longrightarrow> distinct (map fst (dict_set d k v))"
proof (induction d k v rule: dict_set.induct)
  case (1 k v)
  then show ?case by simp
next
  case (2 k' v' d k v)
  then show ?case
    using dict_set_keys[of d k v] by (auto simp del: set_map)
qed

lemma build_cert_map_fold_lookup:
  "distinct (map fst certs) \<Longrightarrow>
   distinct (map fst (fold (\<lambda>filename certs.
                  if \<not> suffix ''.pdf'' (py_lower filename) then certs
                  else (let norm_key = cert_key unidecode filename
                        in if norm_key \<noteq> [] then dict_set certs norm_key filename else certs))
               listing certs))
   \<and> map_of (fold (\<lambda>filename certs.
                  if \<not> suffix ''.pdf'' (py_lower filename) then certs
                  else (let norm_key = cert_key unidecode filename
                        in if norm_key \<noteq> [] then dict_set certs norm_key filename else certs))
               listing certs) k
     = (case filter (\<lambda>f. suffix ''.pdf'' (py_lower f) \<and> cert_key unidecode f = k \<and> k \<noteq> [])
               listing of
          [] \<Rightarrow> map_of certs k
        | f # fs \<Rightarrow> Some (last (f # fs)))"
proof (induction listing arbitrary: certs)
  case Nil
  then show ?case by simp
next
  case (Cons g gs)
  let ?step = "\<lambda>filename certs.
                  if \<not> suffix ''.pdf'' (py_lower filename) then certs
                  else (let norm_key = cert_key unidecode filename
                        in if norm_key \<noteq> [] then dict_set certs norm_key filename else certs)"
  let ?hit = "\<lambda>f. suffix ''.pdf'' (py_lower f) \<and> cert_key unidecode f = k \<and> k \<noteq> []"
  have d: "distinct (map fst (?step g certs))"
    using Cons.prems by (simp add: Let_def distinct_dict_set)
  have m: "map_of (?step g certs) k = (if ?hit g then Some g else map_of certs k)"
    by (auto simp: Let_def map_of_dict_set)
  from Cons.IH[OF d] have ih1: "distinct (map fst (fold ?step gs (?step g certs)))"
    and ih2: "map_of (fold ?step gs (?step g certs)) k
        = (case filter ?hit gs of [] \<Rightarrow> map_of (?step g certs) k
           | f # fs \<Rightarrow> Some (last (f # fs)))"
    by blast+
  have "map_of (fold ?step (g # gs) certs) k
        = (case filter ?hit (g # gs) of [] \<Rightarrow> map_of certs k | f # fs \<Rightarrow> Some (last (f # fs)))"
  proof (cases "?hit g")
    case True
    then have m': "map_of (?step g certs) k = Some g"
      and f: "filter ?hit (g # gs) = g # filter ?hit gs"
      using m by simp_all
    show ?thesis
      unfolding fold_Cons comp_apply ih2 m' f by (simp split: list.splits)
  next
    case False
    from False have m': "map_of (?step g certs) k = map_of certs k"
      unfolding m by (simp only: if_False)
    from False have f: "filter ?hit (g # gs) = filter ?hit gs"
      by (simp only: filter.simps if_False)
    show ?thesis
      unfolding fold_Cons comp_apply ih2 m' f by (rule refl)
  qed
  with ih1 show ?case by simp
qed

lemma normalize_name_cong:
  "unidecode (py_strip x) = unidecode' (py_strip x)
   \<Longrightarrow> normalize_name unidecode x = normalize_name unidecode' x"
  by (simp add: normalize_name_def)

lemma unidecode_ascii_id: "\<forall>c \<in> set s. (of_char c :: nat) < 128 \<Longrightarrow> unidecode_ascii s = s"
  by (simp add: unidecode_ascii_def)


text \<open>
  Claim C6. The index has no key twice, and it maps a key to the last file of the listing
  that produces this key (among the files with the certificate extension and a non-empty
  key); so of two files with the same key the later one wins.
\<close>

theorem build_cert_map_last_write_wins:
  "distinct (map fst (build_cert_map unidecode (Some listing)))
   \<and> map_of (build_cert_map unidecode (Some listing)) k
     = (case filter (\<lambda>f. suffix ''.pdf'' (py_lower f) \<and> cert_key unidecode f = k \<and> k \<noteq> [])
               listing of
          [] \<Rightarrow> None
        | f # fs \<Rightarrow> Some (last (f # fs)))"
  using build_cert_map_fold_lookup[of "[]" unidecode listing k]
  by (auto simp: build_cert_map_def split: list.splits)

theorem build_cert_map_last_write_wins_witness:
  "cert_key unidecode_ascii ''Harsha.pdf'' = ''harsha''
   \<and> cert_key unidecode_ascii ''Amit Kumar.pdf'' = ''amit kumar''
   \<and> cert_key unidecode_ascii ''Certificate_Harsha_pg001.pdf'' = ''harsha''
   \<and> map_of (build_cert_map unidecode_ascii
        (Some [''Harsha.pdf'', ''Amit Kumar.pdf'', ''Certificate_Harsha_pg001.pdf''])) ''harsha''
      = Some ''Certificate_Harsha_pg001.pdf''
   \<and> build_cert_map unidecode_ascii
        (Some [''Harsha.pdf'', ''Amit Kumar.pdf'', ''Certificate_Harsha_pg001.pdf''])
      = [(''harsha'', ''Certificate_Harsha_pg001.pdf''), (''amit kumar'', ''Amit Kumar.pdf'')]"
proof -
  have k1: "cert_key unidecode_ascii ''Harsha.pdf'' = ''harsha''" by code_simp
  have k2: "cert_key unidecode_ascii ''Amit Kumar.pdf'' = ''amit kumar''" by code_simp
  have k3: "cert_key unidecode_ascii ''Certificate_Harsha_pg001.pdf'' = ''harsha''" by code_simp
  have p: "suffix ''.pdf'' (py_lower ''Harsha.pdf'')" "suffix ''.pdf'' (py_lower ''Amit Kumar.pdf'')"
    "suffix ''.pdf'' (py_lower ''Certificate_Harsha_pg001.pdf'')" by code_simp+
  have b: "build_cert_map unidecode_ascii
        (Some [''Harsha.pdf'', ''Amit Kumar.pdf'', ''Certificate_Harsha_pg001.pdf''])
      = [(''harsha'', ''Certificate_Harsha_pg001.pdf''), (''amit kumar'', ''Amit Kumar.pdf'')]"
    by code_simp
  have "map_of (build_cert_map unidecode_ascii
        (Some [''Harsha.pdf'', ''Amit Kumar.pdf'', ''Certificate_Harsha_pg001.pdf''])) ''harsha''
      = Some ''Certificate_Harsha_pg001.pdf''"
    using build_cert_map_last_write_wins [of unidecode_ascii
        "[''Harsha.pdf'', ''Amit Kumar.pdf'', ''Certificate_Harsha_pg001.pdf'']" "''harsha''"]
      k1 k2 k3 p by simp
  with k1 k2 k3 b show ?thesis by simp
qed

text \<open>
  Claim C3, as the code has it. The files Certificate\_Harsha\_pg001.pdf and
  Certificate\_Amit\_Kumar\_2.pdf give the index with the keys ``harsha'' and ``amitkumar'':
  the underscore between the name tokens is deleted with every other character that is
  neither a letter nor a blank, it does not become a space.
\<close>

theorem build_cert_map_example:
  assumes "\<forall>s. (\<forall>c \<in> set s. (of_char c :: nat) < 128) \<longrightarrow> unidecode s = s"
  shows "build_cert_map unidecode
           (Some [''Certificate_Harsha_pg001.pdf'', ''Certificate_Amit_Kumar_2.pdf''])
         = [(''harsha'', ''Certificate_Harsha_pg001.pdf''),
            (''amitkumar'', ''Certificate_Amit_Kumar_2.pdf'')]"
proof -
  have c1: "py_strip (py_strip (sub_digit_suffix ''_'' (sub_digit_suffix ''_pg''
              (strip_certificate (splitext_root ''Certificate_Harsha_pg001.pdf''))))) = ''Harsha''"
    by code_simp
  have c2: "py_strip (py_strip (sub_digit_suffix ''_'' (sub_digit_suffix ''_pg''
              (strip_certificate (splitext_root ''Certificate_Amit_Kumar_2.pdf''))))) = ''Amit_Kumar''"
    by code_simp
  have a1: "\<forall>c \<in> set ''Harsha''. (of_char c :: nat) < 128" by code_simp
  have a2: "\<forall>c \<in> set ''Amit_Kumar''. (of_char c :: nat) < 128" by code_simp
  have u1: "unidecode ''Harsha'' = unidecode_ascii ''Harsha''"
    using assms a1 unidecode_ascii_id[OF a1] by simp
  have u2: "unidecode ''Amit_Kumar'' = unidecode_ascii ''Amit_Kumar''"
    using assms a2 unidecode_ascii_id[OF a2] by simp
  have "cert_key unidecode ''Certificate_Harsha_pg001.pdf''
          = cert_key unidecode_ascii ''Certificate_Harsha_pg001.pdf''"
    unfolding cert_key_def Let_def by (rule normalize_name_cong) (simp add: c1 u1)
  moreover have "cert_key unidecode_ascii ''Certificate_Harsha_pg001.pdf'' = ''harsha''"
    by code_simp
  ultimately have k1: "cert_key unidecode ''Certificate_Harsha_pg001.pdf'' = ''harsha''"
    by simp
  have "cert_key unidecode ''Certificate_Amit_Kumar_2.pdf''
          = cert_key unidecode_ascii ''Certificate_Amit_Kumar_2.pdf''"
    unfolding cert_key_def Let_def by (rule normalize_name_cong) (simp add: c2 u2)
  moreover have "cert_key unidecode_ascii ''Certificate_Amit_Kumar_2.pdf'' = ''amitkumar''"
    by code_simp
  ultimately have k2: "cert_key unidecode ''Certificate_Amit_Kumar_2.pdf'' = ''amitkumar''"
    by simp
  have p: "suffix ''.pdf'' (py_lower ''Certificate_Harsha_pg001.pdf'')"
    "suffix ''.pdf'' (py_lower ''Certificate_Amit_Kumar_2.pdf'')" by code_simp+
  show ?thesis
    by (simp add: build_cert_map_def k1 k2 p)
qed

theorem build_cert_map_example_witness:
  "list_all (\<lambda>c. (of_char c :: nat) < 128) ''Amit_Kumar''
   \<and> unidecode_ascii ''Amit_Kumar'' = ''Amit_Kumar''
   \<and> build_cert_map unidecode_ascii
           (Some [''Certificate_Harsha_pg001.pdf'', ''Certificate_Amit_Kumar_2.pdf''])
         = [(''harsha'', ''Certificate_Harsha_pg001.pdf''),
            (''amitkumar'', ''Certificate_Amit_Kumar_2.pdf'')]"
proof -
  have h: "\<forall>s. (\<forall>c \<in> set s. (of_char c :: nat) < 128) \<longrightarrow> unidecode_ascii s = s"
    using unidecode_ascii_id by blast
  have a: "\<forall>c \<in> set ''Amit_Kumar''. (of_char c :: nat) < 128" by code_simp
  have l: "list_all (\<lambda>c. (of_char c :: nat) < 128) ''Amit_Kumar''" by code_simp
  from build_cert_map_example [OF h] unidecode_ascii_id[OF a] l show ?thesis by blast
qed

theorem build_cert_map_example_counterexample:
  "map_of (build_cert_map unidecode_ascii
             (Some [''Certificate_Harsha_pg001.pdf'', ''Certificate_Amit_Kumar_2.pdf'']))
          ''amit kumar'' = None
   \<and> map_of (build_cert_map unidecode_ascii
             (Some [''Certificate_Harsha_pg001.pdf'', ''Certificate_Amit_Kumar_2.pdf'']))
          ''amitkumar'' = Some ''Certificate_Amit_Kumar_2.pdf''"
  by code_simp

section \<open>Properties of the normaliser\<close>


lemma is_az_word: "is_az c \<Longrightarrow> is_word c"
  by (simp add: is_word_def is_alpha_def)

lemma is_az_not_space: "is_az c \<Longrightarrow> \<not> is_space c"
  by (auto simp: is_az_def is_space_def Let_def)

lemma is_az_lower: "is_az c \<Longrightarrow> lower_char c = c"
  by (auto simp: is_az_def is_AZ_def lower_char_def Let_def)

lemma is_az_not_dot: "is_az c \<Longrightarrow> c \<noteq> CHR ''.''"
  by (auto simp: is_az_def)

lemma blank_facts:
  "is_space (CHR '' '')" "\<not> is_word (CHR '' '')" "lower_char (CHR '' '') = CHR '' ''"
  "\<not> is_az (CHR '' '')"
  by code_simp+

lemma titles_az: "t \<in> set titles \<Longrightarrow> t \<noteq> [] \<and> (\<forall>c \<in> set t. is_az c)"
proof -
  have "list_all (\<lambda>t. t \<noteq> [] \<and> list_all is_az t) titles" by code_simp
  then show "t \<in> set titles \<Longrightarrow> t \<noteq> [] \<and> (\<forall>c \<in> set t. is_az c)"
    by (simp add: list_all_iff)
qed

lemma ws_sub_blank:
  assumes "is_space c"
  shows "re_sub ws_run '' '' pw (c # cs) = CHR '' '' # re_sub ws_run '' '' False (dropWhile is_space cs)"
proof -
  have w: "ws_run pw (c # cs) = Some (Suc (length (takeWhile is_space cs)))"
    using assms by (simp add: ws_run_def)
  have nth: "(c # cs) ! length (takeWhile is_space cs) \<in> set (c # takeWhile is_space cs)"
    by (metis length_Cons lessI nth_mem nth_append takeWhile_dropWhile_id append_Cons)
  then have "is_space ((c # cs) ! length (takeWhile is_space cs))"
    using assms by (auto dest: set_takeWhileD)
  then have nw: "\<not> is_word ((c # cs) ! length (takeWhile is_space cs))"
    by (auto simp: is_space_def is_word_def is_alpha_def is_digit_def is_az_def is_AZ_def Let_def)
  show ?thesis
    by (simp add: re_sub.simps w nw dropWhile_eq_drop[symmetric])
qed

lemma ws_sub_pw: "re_sub ws_run repl pw s = re_sub ws_run repl pw' s"
  by (cases s) (simp_all add: re_sub.simps ws_run_def)

lemma ws_sub_nonblank:
  assumes "\<not> is_space c"
  shows "re_sub ws_run '' '' pw (c # cs) = c # re_sub ws_run '' '' False cs"
proof -
  have "ws_run pw (c # cs) = None" using assms by (simp add: ws_run_def)
  then show ?thesis using ws_sub_pw[of "'' ''" "is_word c" cs False] by (simp add: re_sub.simps)
qed

lemma ws_sub_word:
  "\<forall>c \<in> set w. \<not> is_space c \<Longrightarrow>
   re_sub ws_run '' '' False (w @ r) = w @ re_sub ws_run '' '' False r"
  by (induction w) (simp_all add: ws_sub_nonblank)

lemma py_split_word:
  assumes "w \<noteq> []" "\<forall>c \<in> set w. \<not> is_space c" "r = [] \<or> is_space (hd r)"
  shows "py_split (w @ r) = w # py_split r"
proof -
  obtain c cs where w: "w = c # cs" using assms(1) by (cases w) auto
  have d: "dropWhile is_space (w @ r) = c # (cs @ r)"
    using assms(2) w by simp
  have t: "takeWhile (\<lambda>x. \<not> is_space x) (w @ r) = w"
    using assms(2,3) by (cases r) (auto simp: takeWhile_append2 takeWhile_append)
  have dr: "dropWhile (\<lambda>x. \<not> is_space x) (w @ r) = r"
    using assms(2,3) by (cases r) (auto simp: dropWhile_append)
  show ?thesis
    by (subst py_split.simps) (use d t dr w in \<open>simp\<close>)
qed

lemma py_split_blank: "is_space c \<Longrightarrow> py_split (c # cs) = py_split cs"
  by (subst py_split.simps, subst (2) py_split.simps) simp

lemma py_split_dropWhile: "py_split (dropWhile is_space s) = py_split s"
  by (subst py_split.simps, subst (2) py_split.simps) simp


lemma py_split_empty [simp]: "py_split [] = []"
  by (subst py_split.simps) simp

lemma py_split_words:
  "w \<in> set (py_split s) \<Longrightarrow> w \<noteq> [] \<and> (\<forall>c \<in> set w. \<not> is_space c \<and> c \<in> set s)"
proof (induction s rule: py_split.induct)
  case (1 s)
  show ?case
  proof (cases "dropWhile is_space s")
    case Nil
    have "py_split s = []" by (subst py_split.simps) (simp only: Nil list.simps)
    with "1.prems" show ?thesis by simp
  next
    case (Cons c cs)
    let ?w = "takeWhile (\<lambda>x. \<not> is_space x) (c # cs)"
    let ?r = "dropWhile (\<lambda>x. \<not> is_space x) (c # cs)"
    have nc: "\<not> is_space c" using hd_dropWhile[of is_space s] Cons by simp
    have sp: "py_split s = ?w # py_split ?r"
      by (subst py_split.simps) (simp only: Cons list.simps)
    have sub: "set (c # cs) \<subseteq> set s"
      using set_dropWhileD[of _ is_space s] Cons by auto
    from "1.prems" sp consider "w = ?w" | "w \<in> set (py_split ?r)" by auto
    then show ?thesis
    proof cases
      case w: 1
      have "?w \<noteq> []" using nc by simp
      moreover have "\<forall>x \<in> set ?w. \<not> is_space x \<and> x \<in> set s"
      proof
        fix x assume "x \<in> set ?w"
        then have "x \<in> set (c # cs) \<and> \<not> is_space x" by (rule set_takeWhileD)
        with sub show "\<not> is_space x \<and> x \<in> set s" by blast
      qed
      ultimately show ?thesis unfolding w by blast
    next
      case r: 2
      from "1.IH"[OF Cons r] have "w \<noteq> [] \<and> (\<forall>x \<in> set w. \<not> is_space x \<and> x \<in> set ?r)" .
      moreover have "set ?r \<subseteq> set s"
        using sub set_dropWhileD[of _ "\<lambda>x. \<not> is_space x" "c # cs"] by blast
      ultimately show ?thesis by blast
    qed
  qed
qed

lemma join_words_nonempty: "v \<noteq> [] \<Longrightarrow> join_words (v # vs) \<noteq> []"
  by (cases vs) auto

lemma py_strip_rstrip: "py_strip s = rstrip (dropWhile is_space s)"
  by (simp add: py_strip_def rstrip_def)

lemma rstrip_append:
  "rstrip (xs @ ys) = (if \<forall>c \<in> set ys. is_space c then rstrip xs else xs @ rstrip ys)"
  by (simp add: rstrip_def dropWhile_append)

lemma rstrip_Nil_iff: "rstrip s = [] \<longleftrightarrow> (\<forall>c \<in> set s. is_space c)"
  by (simp add: rstrip_def dropWhile_eq_Nil_conv)

lemma rstrip_word: "\<forall>c \<in> set w. \<not> is_space c \<Longrightarrow> rstrip w = w"
  by (cases "rev w") (auto simp: rstrip_def)

lemma ws_sub_no_lead:
  assumes "u = [] \<or> \<not> is_space (hd u)"
  shows "dropWhile is_space (re_sub ws_run '' '' False u) = re_sub ws_run '' '' False u"
  using assms by (cases u) (auto simp: ws_sub_nonblank)

lemma strip_collapse: "py_strip (re_sub ws_run '' '' False s) = join_words (py_split s)"
proof (induction s rule: length_induct)
  case (1 s)
  show ?case
  proof (cases s)
    case Nil
    then show ?thesis by (simp add: py_strip_def)
  next
    case (Cons c cs)
    show ?thesis
    proof (cases "is_space c")
      case True
      have "length (dropWhile is_space cs) < length s"
        using Cons length_dropWhile_le[of is_space cs] by simp
      with 1 have ih: "py_strip (re_sub ws_run '' '' False (dropWhile is_space cs))
                        = join_words (py_split (dropWhile is_space cs))" by blast
      have "py_strip (re_sub ws_run '' '' False s)
              = py_strip (re_sub ws_run '' '' False (dropWhile is_space cs))"
        using True Cons by (simp add: ws_sub_blank py_strip_def blank_facts)
      moreover have "py_split s = py_split (dropWhile is_space cs)"
        using True Cons by (simp add: py_split_blank py_split_dropWhile)
      ultimately show ?thesis using ih by simp
    next
      case False
      let ?w = "takeWhile (\<lambda>x. \<not> is_space x) s"
      let ?r = "dropWhile (\<lambda>x. \<not> is_space x) s"
      let ?C = "re_sub ws_run '' '' False"
      have s: "s = ?w @ ?r" by simp
      have wne: "?w \<noteq> []" using False Cons by simp
      have wns: "\<forall>x \<in> set ?w. \<not> is_space x" by (auto dest: set_takeWhileD)
      have rsp: "?r = [] \<or> is_space (hd ?r)"
        using hd_dropWhile[of "\<lambda>x. \<not> is_space x" s] by auto
      have "length ?r < length s"
        using wne by (metis s length_append length_greater_0_conv less_add_same_cancel2)
      with 1 have ih: "py_strip (?C ?r) = join_words (py_split ?r)" by blast
      have cs: "?C s = ?w @ ?C ?r"
        using ws_sub_word[OF wns, of ?r] by simp
      have sp: "py_split s = ?w # py_split ?r"
        using py_split_word[OF wne wns rsp] by simp
      have "dropWhile is_space (?w @ ?C ?r) = ?w @ ?C ?r"
        using wne wns by (cases ?w) auto
      then have st: "py_strip (?C s) = rstrip (?w @ ?C ?r)"
        by (simp add: cs py_strip_rstrip)
      show ?thesis
      proof (cases ?r)
        case Nil
        have "?C ?r = []" "py_split ?r = []"
          by (simp_all only: Nil re_sub.simps py_split_empty)
        then show ?thesis
          unfolding st sp by (simp add: rstrip_word[OF wns])
      next
        case (Cons d ds)
        then have d: "is_space d" using rsp by simp
        let ?u = "dropWhile is_space ds"
        have cr: "?C ?r = CHR '' '' # ?C ?u"
          using d Cons by (simp add: ws_sub_blank)
        have "?u = [] \<or> \<not> is_space (hd ?u)"
          using hd_dropWhile[of is_space ds] by auto
        from ws_sub_no_lead[OF this] have "py_strip (?C ?u) = rstrip (?C ?u)"
          by (simp add: py_strip_rstrip)
        moreover have "py_strip (?C ?r) = py_strip (?C ?u)"
          by (simp add: cr py_strip_def blank_facts)
        ultimately have ry: "rstrip (?C ?u) = join_words (py_split ?r)"
          using ih by simp
        have exp: "rstrip (?w @ ?C ?r)
               = (if \<forall>c \<in> set (?C ?u). is_space c then ?w else ?w @ CHR '' '' # rstrip (?C ?u))"
        proof -
          have "rstrip (?w @ ?C ?r) = rstrip ((?w @ '' '') @ ?C ?u)"
            by (simp add: cr)
          also have "\<dots> = (if \<forall>c \<in> set (?C ?u). is_space c then rstrip (?w @ '' '')
                           else (?w @ '' '') @ rstrip (?C ?u))"
            by (rule rstrip_append)
          also have "rstrip (?w @ '' '') = ?w"
            by (simp add: rstrip_append blank_facts rstrip_word[OF wns])
          finally show ?thesis by simp
        qed
        show ?thesis
        proof (cases "py_split ?r")
          case Nil
          then have "rstrip (?C ?u) = []" using ry by simp
          then have "\<forall>c \<in> set (?C ?u). is_space c" by (simp add: rstrip_Nil_iff)
          then show ?thesis unfolding st sp exp Nil by simp
        next
          case (Cons v vs)
          have "v \<in> set (py_split ?r)" unfolding Cons by simp
          from py_split_words[OF this] have vne: "v \<noteq> []" by blast
          have rj: "rstrip (?C ?u) = join_words (v # vs)"
            unfolding ry Cons by (rule refl)
          have "rstrip (?C ?u) \<noteq> []"
            unfolding rj by (rule join_words_nonempty[OF vne])
          then have ns: "\<not> (\<forall>c \<in> set (?C ?u). is_space c)"
            unfolding rstrip_Nil_iff .
          have "py_strip (?C s) = ?w @ CHR '' '' # join_words (v # vs)"
            unfolding st exp rj using ns by (simp only: if_False)
          also have "\<dots> = join_words (?w # v # vs)"
            by (simp only: join_words.simps)
          finally show ?thesis unfolding sp Cons .
        qed
      qed
    qed
  qed
qed

lemma clean_words_Cons:
  "clean_words (w # ws) \<longleftrightarrow> w \<noteq> [] \<and> (\<forall>c \<in> set w. is_az c) \<and> clean_words ws"
  by (simp add: clean_words_def list_all_iff)

lemma clean_words_filter: "clean_words ws \<Longrightarrow> clean_words (filter P ws)"
  by (auto simp: clean_words_def list_all_iff)

lemma title_match_True: "title_match True s = None"
  by (simp add: title_match_def)

lemma title_sub_inside:
  "\<forall>c \<in> set w. is_word c \<Longrightarrow>
   re_sub title_match [] True (w @ r) = w @ re_sub title_match [] True r"
  by (induction w) (simp_all add: re_sub.simps title_match_True)

lemma title_sub_blank:
  "re_sub title_match [] True (CHR '' '' # r) = CHR '' '' # re_sub title_match [] False r"
  by (simp add: re_sub.simps title_match_True blank_facts)

lemma title_word_eq:
  assumes t: "\<forall>c \<in> set t. is_word c"
    and w: "\<forall>c \<in> set w. is_word c"
    and r: "r = [] \<or> \<not> is_word (hd r)"
    and p: "prefix t (w @ r)"
    and b: "case drop (length t) (w @ r) of [] \<Rightarrow> True | c # _ \<Rightarrow> \<not> is_word c"
  shows "t = w"
proof -
  from p consider "prefix t w" | us where "t = w @ us" "prefix us r"
    by (auto simp: prefix_append)
  then show ?thesis
  proof cases
    case 1
    then obtain v where v: "w = t @ v" by (auto simp: prefix_def)
    show ?thesis
    proof (cases v)
      case Nil
      with v show ?thesis by simp
    next
      case (Cons d ds)
      then have "is_word d" using w v by simp
      moreover have "drop (length t) (w @ r) = d # ds @ r" using v Cons by simp
      ultimately show ?thesis using b by simp
    qed
  next
    case 2
    show ?thesis
    proof (cases us)
      case Nil
      with 2 show ?thesis by simp
    next
      case (Cons d ds)
      then have "is_word d" using t 2(1) by simp
      moreover from 2(2) Cons obtain r' where "r = d # r'"
        by (cases r) (auto simp: prefix_def)
      ultimately show ?thesis using r by simp
    qed
  qed
qed

lemma title_find:
  assumes w: "w \<noteq> []" "\<forall>c \<in> set w. is_az c"
    and r: "r = [] \<or> \<not> is_word (hd r)"
  shows "find (\<lambda>t. prefix t (w @ r) \<and>
                 (case drop (length t) (w @ r) of [] \<Rightarrow> True | c # _ \<Rightarrow> \<not> is_word c)) titles
         = (if w \<in> set titles then Some w else None)"
proof -
  let ?P = "\<lambda>t. prefix t (w @ r) \<and>
                 (case drop (length t) (w @ r) of [] \<Rightarrow> True | c # _ \<Rightarrow> \<not> is_word c)"
  have ww: "\<forall>c \<in> set w. is_word c" using w(2) is_az_word by blast
  have eq: "t = w" if "t \<in> set titles" "?P t" for t
  proof -
    have "\<forall>c \<in> set t. is_word c" using titles_az[OF that(1)] is_az_word by blast
    from title_word_eq[OF this ww r] that(2) show ?thesis by blast
  qed
  have Pw: "?P w" using r by (cases r) auto
  show ?thesis
  proof (cases "find ?P titles")
    case None
    have "w \<notin> set titles"
    proof
      assume "w \<in> set titles"
      with Pw have "\<exists>x. x \<in> set titles \<and> ?P x" by blast
      with None find_None_iff[of ?P titles] show False by blast
    qed
    with None show ?thesis by simp
  next
    case (Some t)
    then have "t \<in> set titles" "?P t"
      by (auto simp: find_Some_iff in_set_conv_nth)
    with eq have "t = w" by blast
    with Some \<open>t \<in> set titles\<close> show ?thesis by simp
  qed
qed

lemma title_match_word:
  assumes w: "w \<noteq> []" "\<forall>c \<in> set w. is_az c"
    and r: "r = [] \<or> hd r = CHR '' ''"
  shows "title_match False (w @ r)
         = (if w \<in> set titles then Some (length w + length (takeWhile is_space r)) else None)"
proof -
  have r': "r = [] \<or> \<not> is_word (hd r)" using r blank_facts by auto
  have dot: "(case r of [] \<Rightarrow> 0 | c # _ \<Rightarrow> if c = CHR ''.'' then 1 else 0) = (0::nat)"
    using r by (cases r) auto
  show ?thesis
    unfolding title_match_def title_find[OF w r'] by (simp add: dot Let_def)
qed

lemma title_sub_keep:
  assumes w: "w \<noteq> []" "\<forall>c \<in> set w. is_az c" "w \<notin> set titles"
    and r: "r = [] \<or> hd r = CHR '' ''"
  shows "re_sub title_match [] False (w @ r) = w @ re_sub title_match [] True r"
proof -
  obtain c cs where c: "w = c # cs" using w(1) by (cases w) auto
  have m: "title_match False (c # cs @ r) = None"
    using title_match_word[OF w(1,2) r] w(3) c by simp
  have "is_word c" "\<forall>x \<in> set cs. is_word x" using w(2) c is_az_word by auto
  then show ?thesis
    using title_sub_inside[of cs r] by (simp add: c re_sub.simps m)
qed

lemma title_sub_drop_last:
  assumes w: "w \<in> set titles"
  shows "re_sub title_match [] False w = []"
proof -
  from titles_az[OF w] have az: "w \<noteq> []" "\<forall>c \<in> set w. is_az c" by auto
  obtain c cs where c: "w = c # cs" using az(1) by (cases w) auto
  have "title_match False (w @ []) = Some (length w)"
    using title_match_word[OF az, of "[]"] w by simp
  then have m: "title_match False (c # cs) = Some (Suc (length cs))" by (simp add: c)
  show ?thesis by (simp add: c re_sub.simps m)
qed

lemma title_sub_drop:
  assumes w: "w \<in> set titles" and r: "r = [] \<or> \<not> is_space (hd r)"
  shows "re_sub title_match [] False (w @ CHR '' '' # r) = re_sub title_match [] False r"
proof -
  from titles_az[OF w] have az: "w \<noteq> []" "\<forall>c \<in> set w. is_az c" by auto
  obtain c cs where c: "w = c # cs" using az(1) by (cases w) auto
  have tw: "takeWhile is_space (CHR '' '' # r) = '' ''"
    using r blank_facts by (cases r) auto
  have "title_match False (w @ CHR '' '' # r) = Some (length w + 1)"
    using title_match_word[OF az, of "CHR '' '' # r"] w tw by simp
  then have m: "title_match False (c # cs @ CHR '' '' # r) = Some (Suc (Suc (length cs)))"
    by (simp add: c)
  have n: "(c # cs @ CHR '' '' # r) ! Suc (length cs) = CHR '' ''"
    by (simp add: nth_append)
  show ?thesis
    by (simp add: c re_sub.simps m n blank_facts)
qed

lemma join_words_hd:
  "w \<noteq> [] \<Longrightarrow> join_words (w # ws) \<noteq> [] \<and> hd (join_words (w # ws)) = hd w"
  by (cases ws) auto

lemma join_words_last:
  "clean_words ws \<Longrightarrow> ws \<noteq> [] \<Longrightarrow> last (join_words ws) = last (last ws)"
  by (induction ws rule: join_words.induct) (auto simp: clean_words_Cons join_words_nonempty)

lemma join_words_chars:
  "clean_words ws \<Longrightarrow> c \<in> set (join_words ws) \<Longrightarrow> is_az c \<or> c = CHR '' ''"
  by (induction ws rule: join_words.induct) (auto simp: clean_words_Cons)

lemma py_split_join: "clean_words ws \<Longrightarrow> py_split (join_words ws) = ws"
proof (induction ws rule: join_words.induct)
  case 1
  then show ?case by simp
next
  case (2 w)
  then have w: "w \<noteq> []" "\<forall>c \<in> set w. \<not> is_space c"
    using is_az_not_space by (auto simp: clean_words_Cons)
  from py_split_word[OF w, of "[]"] show ?case by simp
next
  case (3 w v ws)
  then have w: "w \<noteq> []" "\<forall>c \<in> set w. \<not> is_space c"
    using is_az_not_space by (auto simp: clean_words_Cons)
  have "py_split (w @ CHR '' '' # join_words (v # ws))
          = w # py_split (CHR '' '' # join_words (v # ws))"
    by (rule py_split_word[OF w]) (simp add: blank_facts)
  also have "py_split (CHR '' '' # join_words (v # ws)) = py_split (join_words (v # ws))"
    by (rule py_split_blank) (simp add: blank_facts)
  also have "\<dots> = v # ws"
    using 3 by (simp add: clean_words_Cons)
  finally show ?case by simp
qed

lemma title_sub_join:
  "clean_words ws \<Longrightarrow>
   py_split (re_sub title_match [] False (join_words ws)) = filter (\<lambda>w. w \<notin> set titles) ws"
proof (induction ws rule: join_words.induct)
  case 1
  then show ?case by simp
next
  case (2 w)
  then have w: "w \<noteq> []" "\<forall>c \<in> set w. is_az c" by (auto simp: clean_words_Cons)
  show ?case
  proof (cases "w \<in> set titles")
    case True
    then show ?thesis by (simp add: title_sub_drop_last)
  next
    case False
    have ns: "\<forall>c \<in> set w. \<not> is_space c" using w(2) is_az_not_space by blast
    have "re_sub title_match [] False (w @ []) = w @ re_sub title_match [] True []"
      by (rule title_sub_keep[OF w False]) simp
    then have "re_sub title_match [] False (join_words [w]) = w" by simp
    moreover have "py_split w = [w]"
      using py_split_word[OF w(1) ns, of "[]"] by simp
    ultimately show ?thesis using False by simp
  qed
next
  case (3 w v ws)
  then have w: "w \<noteq> []" "\<forall>c \<in> set w. is_az c"
    and v: "v \<noteq> []" "\<forall>c \<in> set v. is_az c"
    and cl: "clean_words (v # ws)"
    by (auto simp: clean_words_Cons)
  let ?J = "join_words (v # ws)"
  have ih: "py_split (re_sub title_match [] False ?J) = filter (\<lambda>w. w \<notin> set titles) (v # ws)"
    using 3 cl by blast
  have hdJ: "?J \<noteq> []" "hd ?J = hd v" using join_words_hd[OF v(1)] by auto
  have "is_az (hd v)" using v by (cases v) auto
  then have nsJ: "?J = [] \<or> \<not> is_space (hd ?J)"
    using hdJ is_az_not_space by simp
  show ?case
  proof (cases "w \<in> set titles")
    case True
    have "re_sub title_match [] False (w @ CHR '' '' # ?J) = re_sub title_match [] False ?J"
      by (rule title_sub_drop[OF True nsJ])
    then show ?thesis using ih True by simp
  next
    case False
    have ns: "\<forall>c \<in> set w. \<not> is_space c" using w(2) is_az_not_space by blast
    have "re_sub title_match [] False (w @ CHR '' '' # ?J)
            = w @ re_sub title_match [] True (CHR '' '' # ?J)"
      by (rule title_sub_keep[OF w False]) simp
    also have "\<dots> = w @ CHR '' '' # re_sub title_match [] False ?J"
      by (simp only: title_sub_blank)
    finally have e: "re_sub title_match [] False (join_words (w # v # ws))
            = w @ CHR '' '' # re_sub title_match [] False ?J" by simp
    have "py_split (w @ CHR '' '' # re_sub title_match [] False ?J)
            = w # py_split (CHR '' '' # re_sub title_match [] False ?J)"
      by (rule py_split_word[OF w(1) ns]) (simp add: blank_facts)
    also have "py_split (CHR '' '' # re_sub title_match [] False ?J)
            = py_split (re_sub title_match [] False ?J)"
      by (rule py_split_blank) (simp add: blank_facts)
    finally show ?thesis unfolding e ih using False by simp
  qed
qed

lemma re_sub_delete_subset: "set (re_sub m [] pw s) \<subseteq> set s"
proof (induction s arbitrary: pw rule: length_induct)
  case (1 s)
  show ?case
  proof (cases s)
    case Nil
    then show ?thesis by simp
  next
    case (Cons c cs)
    show ?thesis
    proof (cases "m pw (c # cs)")
      case None
      have "set (re_sub m [] (is_word c) cs) \<subseteq> set cs"
        using 1 Cons by simp
      then show ?thesis using Cons None by (auto simp: re_sub.simps)
    next
      case (Some k)
      show ?thesis
      proof (cases k)
        case 0
        have "set (re_sub m [] (is_word c) cs) \<subseteq> set cs"
          using 1 Cons by simp
        then show ?thesis using Cons Some 0 by (auto simp: re_sub.simps)
      next
        case (Suc n)
        have "length (drop n cs) < length s" using Cons by simp
        with 1 have "set (re_sub m [] (is_word ((c # cs) ! n)) (drop n cs)) \<subseteq> set (drop n cs)"
          by blast
        moreover have "set (drop n cs) \<subseteq> set cs" by (rule set_drop_subset)
        ultimately show ?thesis using Cons Some Suc by (auto simp: re_sub.simps)
      qed
    qed
  qed
qed

lemma py_strip_clean:
  assumes "s = [] \<or> (\<not> is_space (hd s) \<and> \<not> is_space (last s))"
  shows "py_strip s = s"
proof (cases s)
  case Nil
  then show ?thesis by (simp add: py_strip_def)
next
  case (Cons c cs)
  with assms have h: "\<not> is_space c" and l: "\<not> is_space (last s)" by auto
  have d: "dropWhile is_space s = s" using h Cons by simp
  obtain a as where r: "rev s = a # as" using Cons by (cases "rev s") auto
  then have "a = last s" using Cons by (metis hd_rev list.sel(1) list.distinct(1))
  then have na: "\<not> is_space a" using l by simp
  have "dropWhile is_space (rev s) = rev s" unfolding r using na by simp
  then show ?thesis by (simp add: py_strip_def d)
qed

lemma py_strip_join: "clean_words ws \<Longrightarrow> py_strip (join_words ws) = join_words ws"
proof (cases ws)
  case Nil
  then show ?thesis by (simp add: py_strip_def)
next
  case (Cons w vs)
  assume cl: "clean_words ws"
  then have w: "w \<noteq> []" "\<forall>c \<in> set w. is_az c" using Cons by (auto simp: clean_words_Cons)
  have "is_az (hd w)" using w by (cases w) auto
  then have h: "\<not> is_space (hd (join_words ws))"
    using join_words_hd[OF w(1), of vs] Cons is_az_not_space by simp
  have "last ws \<in> set ws" using Cons by simp
  then have lw: "last ws \<noteq> []" "\<forall>c \<in> set (last ws). is_az c"
    using cl by (auto simp: clean_words_def list_all_iff)
  then have "is_az (last (last ws))" by simp
  then have l: "\<not> is_space (last (join_words ws))"
    using join_words_last[OF cl] Cons is_az_not_space by simp
  show ?thesis by (rule py_strip_clean) (use h l in simp)
qed

lemma normalize_name_join:
  assumes u: "\<forall>s. (\<forall>c \<in> set s. is_az c \<or> c = CHR '' '') \<longrightarrow> unidecode s = s"
    and cl: "clean_words ws"
  shows "normalize_name unidecode (join_words ws) = join_words (filter (\<lambda>w. w \<notin> set titles) ws)"
proof -
  let ?y = "join_words ws"
  let ?R = "re_sub title_match [] False ?y"
  have ch: "\<forall>c \<in> set ?y. is_az c \<or> c = CHR '' ''"
    using join_words_chars[OF cl] by blast
  have s1: "py_strip ?y = ?y" by (rule py_strip_join[OF cl])
  have s2: "unidecode ?y = ?y" using u ch by blast
  have s3: "py_lower ?y = ?y"
    unfolding py_lower_def using ch is_az_lower blank_facts(3) by (intro map_idI) auto
  have "\<forall>c \<in> set ?R. is_az c \<or> is_space c"
    using re_sub_delete_subset[of title_match False ?y] ch blank_facts(1) by auto
  then have s4: "filter (\<lambda>c. is_az c \<or> is_space c) ?R = ?R" by simp
  have "normalize_name unidecode ?y = py_strip (re_sub ws_run '' '' False ?R)"
    by (simp add: normalize_name_def s1 s2 s3 s4)
  also have "\<dots> = join_words (py_split ?R)" by (rule strip_collapse)
  also have "py_split ?R = filter (\<lambda>w. w \<notin> set titles) ws" by (rule title_sub_join[OF cl])
  finally show ?thesis .
qed

lemma normalize_name_clean:
  "clean_words (py_split (normalize_name unidecode x))
   \<and> normalize_name unidecode x = join_words (py_split (normalize_name unidecode x))"
proof -
  define f where "f = filter (\<lambda>c. is_az c \<or> is_space c)
      (re_sub title_match [] False (py_lower (unidecode (py_strip x))))"
  have n: "normalize_name unidecode x = join_words (py_split f)"
    unfolding normalize_name_def Let_def f_def[symmetric] by (rule strip_collapse)
  have cl: "clean_words (py_split f)"
    unfolding clean_words_def list_all_iff
  proof (intro ballI conjI)
    fix w assume w: "w \<in> set (py_split f)"
    from py_split_words[OF w] show "w \<noteq> []" by simp
    fix c assume "c \<in> set w"
    with py_split_words[OF w] have "\<not> is_space c" "c \<in> set f" by auto
    then show "is_az c" by (auto simp: f_def)
  qed
  from py_split_join[OF cl] n cl show ?thesis by simp
qed

lemma unidecode_ascii_clean:
  "\<forall>s. (\<forall>c \<in> set s. is_az c \<or> c = CHR '' '') \<longrightarrow> unidecode_ascii s = s"
proof (intro allI impI)
  fix s assume a: "\<forall>c \<in> set s. is_az c \<or> c = CHR '' ''"
  have "\<forall>c \<in> set s. (of_char c :: nat) < 128"
  proof
    fix c assume "c \<in> set s"
    with a have "is_az c \<or> c = CHR '' ''" by blast
    then show "(of_char c :: nat) < 128" by (auto simp: is_az_def Let_def)
  qed
  then show "unidecode_ascii s = s" by (simp add: unidecode_ascii_def)
qed


text \<open>
  Claim C2, as the code has it. \<open>normalize_name\<close> is not idempotent: the titles are removed
  before the punctuation, so ``Ph.D.'' loses its dots after the title pass and leaves the
  token ``phd'', which the next application removes. For a transliteration that leaves
  lower-case ASCII letters and spaces alone, a second application only deletes the tokens
  of the first result that are titles: the result of two applications is a fixed point,
  and \<open>normalize_name\<close> is idempotent at every input whose normalised name holds no title
  token.
\<close>

theorem normalize_name_second_pass:
  assumes "\<forall>s. (\<forall>c \<in> set s. is_az c \<or> c = CHR '' '') \<longrightarrow> unidecode s = s"
  shows "normalize_name unidecode (normalize_name unidecode (normalize_name unidecode x))
           = normalize_name unidecode (normalize_name unidecode x)
       \<and> ((\<forall>w \<in> set (py_split (normalize_name unidecode x)). w \<notin> set titles)
            \<longrightarrow> normalize_name unidecode (normalize_name unidecode x) = normalize_name unidecode x)"
proof -
  let ?N = "normalize_name unidecode"
  let ?nt = "\<lambda>w. w \<notin> set titles"
  define ws where "ws = py_split (?N x)"
  have cl: "clean_words ws" and nx: "?N x = join_words ws"
    using normalize_name_clean[of unidecode x] by (simp_all add: ws_def)
  have n2: "?N (?N x) = join_words (filter ?nt ws)"
    unfolding nx by (rule normalize_name_join[OF assms cl])
  have "?N (?N (?N x)) = join_words (filter ?nt (filter ?nt ws))"
    unfolding n2 by (rule normalize_name_join[OF assms clean_words_filter[OF cl]])
  then have a: "?N (?N (?N x)) = ?N (?N x)" by (simp add: n2)
  have b: "?N (?N x) = ?N x" if "\<forall>w \<in> set ws. w \<notin> set titles"
  proof -
    from that have "filter ?nt ws = ws" by simp
    then show ?thesis using n2 nx by simp
  qed
  from a b show ?thesis unfolding ws_def by blast
qed

theorem normalize_name_second_pass_witness:
  "normalize_name unidecode_ascii ''John Smith Ph.D.'' = ''john smith phd''
   \<and> normalize_name unidecode_ascii ''john smith phd'' = ''john smith''
   \<and> normalize_name unidecode_ascii ''john smith'' = ''john smith''
   \<and> py_split (normalize_name unidecode_ascii ''Dr. Jane O'Connor Jr.'') = [''jane'', ''oconnor'']
   \<and> normalize_name unidecode_ascii (normalize_name unidecode_ascii ''Dr. Jane O'Connor Jr.'')
       = normalize_name unidecode_ascii ''Dr. Jane O'Connor Jr.''"
proof -
  have a: "normalize_name unidecode_ascii ''John Smith Ph.D.'' = ''john smith phd''"
    by code_simp
  have b: "normalize_name unidecode_ascii ''john smith phd'' = ''john smith''"
    by code_simp
  have c: "normalize_name unidecode_ascii
             (normalize_name unidecode_ascii (normalize_name unidecode_ascii ''John Smith Ph.D.''))
           = normalize_name unidecode_ascii (normalize_name unidecode_ascii ''John Smith Ph.D.'')"
    using normalize_name_second_pass [OF unidecode_ascii_clean, of "''John Smith Ph.D.''"]
    by blast
  have d: "py_split (normalize_name unidecode_ascii ''Dr. Jane O'Connor Jr.'') = [''jane'', ''oconnor'']"
    by code_simp
  have t: "''jane'' \<notin> set titles" "''oconnor'' \<notin> set titles"
    by code_simp+
  have e: "normalize_name unidecode_ascii (normalize_name unidecode_ascii ''Dr. Jane O'Connor Jr.'')
       = normalize_name unidecode_ascii ''Dr. Jane O'Connor Jr.''"
    using normalize_name_second_pass [OF unidecode_ascii_clean, of "''Dr. Jane O'Connor Jr.''"] d t
    by simp
  from a b c d e show ?thesis by simp
qed

theorem normalize_name_not_idempotent_counterexample:
  "normalize_name unidecode_ascii ''John Smith Ph.D.'' = ''john smith phd''
   \<and> normalize_name unidecode_ascii (normalize_name unidecode_ascii ''John Smith Ph.D.'')
       = ''john smith''
   \<and> normalize_name unidecode_ascii (normalize_name unidecode_ascii ''John Smith Ph.D.'')
       \<noteq> normalize_name unidecode_ascii ''John Smith Ph.D.''"
  by code_simp

end
